theory Spec2Isabelle
  imports Main "HOL-Library.Code_Target_Nat"
begin

section \<open>C library functions used by the index code\<close>

text \<open>
  A C string is represented by the bytes before its terminating NUL. A pointer that may
  be NULL is an \<open>option\<close>. Bytes read from a file are a \<open>string\<close> that may hold a NUL
  byte; \<open>cstr\<close> is what the C string functions see of such a buffer.
\<close>

abbreviation (input) NUL :: char where "NUL \<equiv> CHR 0x00"
abbreviation (input) NL :: char where "NL \<equiv> CHR 0x0A"
abbreviation (input) CR :: char where "CR \<equiv> CHR 0x0D"
abbreviation (input) DQUOTE :: char where "DQUOTE \<equiv> CHR 0x22"
abbreviation (input) COMMA :: char where "COMMA \<equiv> CHR 0x2C"

definition cstr :: "string \<Rightarrow> string" where
  "cstr buf = takeWhile (\<lambda>c. c \<noteq> NUL) buf"

text \<open>\<open>isspace\<close> in the C locale: space, and the bytes 9 to 13.\<close>

definition isspace :: "char \<Rightarrow> bool" where
  "isspace c \<longleftrightarrow>
     c = CHR 0x20 \<or> c = CHR 0x09 \<or> c = CHR 0x0A \<or> c = CHR 0x0B \<or> c = CHR 0x0C \<or> c = CHR 0x0D"

text \<open>\<open>tolower\<close> in the C locale: the letters A to Z move to a to z.\<close>

definition tolower :: "char \<Rightarrow> char" where
  "tolower c =
     (let n = (of_char c :: nat) in if 65 \<le> n \<and> n \<le> 90 then char_of (n + 32) else c)"

text \<open>
  \<open>strcasecmp\<close>: the difference of the first pair of bytes that differ after
  \<open>tolower\<close>; the end of a string counts as the byte 0.
\<close>

fun strcasecmp :: "string \<Rightarrow> string \<Rightarrow> int" where
  "strcasecmp [] [] = 0"
| "strcasecmp [] (b # bs) = - int (of_char (tolower b))"
| "strcasecmp (a # as) [] = int (of_char (tolower a))"
| "strcasecmp (a # as) (b # bs) =
     (if tolower a = tolower b then strcasecmp as bs
      else int (of_char (tolower a)) - int (of_char (tolower b)))"

text \<open>\<open>strncasecmp\<close>: the same over at most \<open>n\<close> bytes.\<close>

fun strncasecmp :: "string \<Rightarrow> string \<Rightarrow> nat \<Rightarrow> int" where
  "strncasecmp [] [] n = 0"
| "strncasecmp [] (b # bs) n = (if n = 0 then 0 else - int (of_char (tolower b)))"
| "strncasecmp (a # as) [] n = (if n = 0 then 0 else int (of_char (tolower a)))"
| "strncasecmp (a # as) (b # bs) n =
     (if n = 0 then 0
      else if tolower a = tolower b then strncasecmp as bs (n - 1)
      else int (of_char (tolower a)) - int (of_char (tolower b)))"

text \<open>
  \<open>fgets(buf, n, f)\<close> on the bytes \<open>s\<close> that the stream still holds: at most \<open>n - 1\<close>
  bytes, stopping after a newline. \<open>read_line\<close> returns the bytes stored and the bytes
  left in the stream; \<open>fgets\<close> is NULL (\<open>None\<close>) at the end of the stream.
\<close>

fun read_line :: "nat \<Rightarrow> string \<Rightarrow> string \<times> string" where
  "read_line k [] = ([], [])"
| "read_line k (c # cs) =
     (if k = 0 then ([], c # cs)
      else if c = NL then ([c], cs)
      else (case read_line (k - 1) cs of (l, r) \<Rightarrow> (c # l, r)))"

definition fgets :: "nat \<Rightarrow> string \<Rightarrow> (string \<times> string) option" where
  "fgets n s = (if s = [] then None else Some (read_line (n - 1) s))"

text \<open>
  \<open>fseek(f, off, SEEK_SET)\<close> followed by \<open>fgets\<close> on a file with the bytes \<open>s\<close>: the
  seek fails for a negative offset, the read fails at or after the end of the file.
\<close>

definition fgets_at :: "nat \<Rightarrow> string \<Rightarrow> int \<Rightarrow> string option" where
  "fgets_at n s off =
     (if off < 0 then None else map_option fst (fgets n (drop (nat off) s)))"

text \<open>
  \<open>strtok\<close> with the delimiters \<open>",\n\r"\<close>, as one step on the rest of the string:
  leading delimiters are skipped, the token runs to the next delimiter, and the saved
  pointer is left after that delimiter.
\<close>

definition is_delim :: "char \<Rightarrow> bool" where
  "is_delim c \<longleftrightarrow> c = COMMA \<or> c = NL \<or> c = CR"

definition strtok :: "string \<Rightarrow> (string \<times> string) option" where
  "strtok s =
     (let s1 = dropWhile is_delim s in
      if s1 = [] then None
      else Some (takeWhile (\<lambda>c. \<not> is_delim c) s1,
                 drop 1 (dropWhile (\<lambda>c. \<not> is_delim c) s1)))"

lemma strtok_shorter: "strtok s = Some (tok, rest) \<Longrightarrow> length rest < length s"
proof -
  assume a: "strtok s = Some (tok, rest)"
  let ?s1 = "dropWhile is_delim s"
  from a have ne: "?s1 \<noteq> []" and r: "rest = drop 1 (dropWhile (\<lambda>c. \<not> is_delim c) ?s1)"
    by (auto simp: strtok_def Let_def split: if_splits)
  have "length rest \<le> length (dropWhile (\<lambda>c. \<not> is_delim c) ?s1) - 1"
    using r by simp
  moreover have "length (dropWhile (\<lambda>c. \<not> is_delim c) ?s1) \<le> length ?s1"
    by (rule length_dropWhile_le)
  moreover have "length ?s1 \<le> length s"
    by (rule length_dropWhile_le)
  moreover have "0 < length ?s1" using ne by simp
  ultimately show ?thesis by linarith
qed


section \<open>index.h: the structures stored in the index file\<close>

definition N_BUCKETS :: nat where "N_BUCKETS = 1000"
definition KEY_SIZE :: nat where "KEY_SIZE = 256"

text \<open>
  The sizes of the three structures on an LP64 target, where \<open>int\<close> has 4 bytes and
  \<open>long\<close> has 8 (the \<open>int\<close> of the header is padded to 8).
\<close>

definition sizeof_IndexHeader :: int where "sizeof_IndexHeader = 24"
definition sizeof_BucketDisk :: int where "sizeof_BucketDisk = 8"
definition sizeof_EntryDisk :: int where "sizeof_EntryDisk = 272"

record IndexHeader =
  n_buckets :: int
  offset_buckets :: int
  offset_entries :: int

text \<open>
  \<open>BucketDisk\<close> has the one field \<open>first_entry_offset\<close>, so a bucket slot is that
  \<open>long\<close>. The \<open>key\<close> of an \<open>EntryDisk\<close> is the C string held by its 256-byte buffer.
\<close>

record EntryDisk =
  key :: string
  csv_offset :: int
  next_entry :: int

text \<open>
  The index file as a store addressed by byte offset: what \<open>fseek\<close> to an offset followed
  by \<open>fread\<close> of one structure yields there, \<open>None\<close> when the seek or the read fails.
  \<open>ix_size\<close> is the length of the file, the position \<open>fseek(idx, 0, SEEK_END)\<close> reaches.
\<close>

record idx_file =
  ix_header :: "IndexHeader option"
  ix_bucket :: "int \<Rightarrow> int option"
  ix_entry :: "int \<Rightarrow> EntryDisk option"
  ix_size :: int

definition bucket_offset_of :: "int \<Rightarrow> int" where
  "bucket_offset_of i = sizeof_IndexHeader + sizeof_BucketDisk * i"

section \<open>The key hasher\<close>

text \<open>
  \<open>hash_string\<close> (hash.c) is not among the sources. Every function below takes it as
  the parameter \<open>hs\<close>, the value of its \<open>unsigned long\<close> result.
\<close>

type_synonym hasher = "string \<Rightarrow> nat"

text \<open>
  Modelled from the spec: \<open>hash_string\<close> of hash.c is missing; the spec (4.1) asks only for
  a deterministic function from text to a non-negative integer that treats the key
  exactly as stored. This instance (multiply by 33 and add the byte, from 5381, in 64
  bits) is used where a theorem evaluates the code on a concrete input.
\<close>

definition hash_step :: "nat \<Rightarrow> char \<Rightarrow> nat" where
  "hash_step h c = (h * 33 + of_char c) mod 18446744073709551616"

definition hash_string_djb2 :: hasher where
  "hash_string_djb2 s = foldl hash_step 5381 s"

section \<open>The builder and the keyword search (index2.c)\<close>

definition RANGE :: int where "RANGE = 12"

text \<open>
  \<open>ci_strcasestr\<close>: the first position of \<open>haystack\<close> at which \<open>needle\<close> occurs, case
  ignored, as the rest of the haystack from there; NULL when there is none or when an
  argument is NULL.
\<close>

fun ci_scan :: "string \<Rightarrow> string \<Rightarrow> string option" where
  "ci_scan [] needle = None"
| "ci_scan (c # cs) needle =
     (if length (c # cs) < length needle then None
      else if strncasecmp (c # cs) needle (length needle) = 0 then Some (c # cs)
      else ci_scan cs needle)"

definition ci_strcasestr :: "string option \<Rightarrow> string option \<Rightarrow> string option" where
  "ci_strcasestr haystack needle =
     (case haystack of None \<Rightarrow> None
      | Some h \<Rightarrow>
         (case needle of None \<Rightarrow> None
          | Some n \<Rightarrow> if length n = 0 then Some h else ci_scan h n))"

text \<open>
  \<open>limpiar_texto\<close>: drops one leading quote, then one trailing quote, then the trailing
  white space.
\<close>

fun strip_trailing_space :: "string \<Rightarrow> string" where
  "strip_trailing_space s =
     (if s \<noteq> [] \<and> isspace (last s) then strip_trailing_space (butlast s) else s)"

declare strip_trailing_space.simps [simp del]

definition limpiar_texto :: "string \<Rightarrow> string" where
  "limpiar_texto s =
     (if length s = 0 then s
      else
        let s1 = (if hd s = DQUOTE then tl s else s);
            s2 = (if length s1 > 0 \<and> last s1 = DQUOTE then butlast s1 else s1)
        in strip_trailing_space s2)"

text \<open>
  The column loop of \<open>build_index\<close>: \<open>token\<close> is the current result of \<open>strtok\<close> (the token
  and the rest of the line after it), \<open>col\<close> counts from 1, and the key is the token at
  which \<open>col\<close> is 4.
\<close>

function key_loop :: "nat \<Rightarrow> (string \<times> string) option \<Rightarrow> string option" where
  "key_loop col None = None"
| "key_loop col (Some (token, rest)) =
     (if col = 4 then Some token else key_loop (col + 1) (strtok rest))"
  by pat_completeness auto
termination
  by (relation "measure (\<lambda>(col, t). case t of None \<Rightarrow> 0 | Some (tok, rest) \<Rightarrow> Suc (length rest))")
     (auto split: option.splits dest: strtok_shorter)

definition line_key :: "string \<Rightarrow> string option" where
  "line_key line = key_loop 1 (strtok (cstr line))"

text \<open>
  Which calls on the index file succeed while one data line is processed, in the order
  of the source: the seek to the bucket, the read of the bucket, the seek to the end,
  the write of the entry, the seek back to the bucket, the write of the bucket. A failed
  write leaves the file as it was.
\<close>

record line_io =
  seek_bucket_ok :: bool
  read_bucket_ok :: bool
  seek_end_ok :: bool
  write_entry_ok :: bool
  seek_bucket_again_ok :: bool
  write_bucket_ok :: bool

definition all_ok :: line_io where
  "all_ok = \<lparr>seek_bucket_ok = True, read_bucket_ok = True, seek_end_ok = True,
             write_entry_ok = True, seek_bucket_again_ok = True, write_bucket_ok = True\<rparr>"

text \<open>The body of the line loop of \<open>build_index\<close>, for the line read at \<open>line_start\<close>.\<close>

definition insert_line :: "hasher \<Rightarrow> line_io \<Rightarrow> idx_file \<Rightarrow> int \<Rightarrow> string \<Rightarrow> idx_file" where
  "insert_line hs io f line_start line =
     (case line_key line of
        None \<Rightarrow> f
      | Some token \<Rightarrow>
          let k = limpiar_texto token;
              h = hs k mod N_BUCKETS;
              bucket_offset = bucket_offset_of (int h)
          in
          if \<not> seek_bucket_ok io then f
          else
            let b = (if read_bucket_ok io
                     then (case ix_bucket f bucket_offset of None \<Rightarrow> - 1 | Some v \<Rightarrow> v)
                     else - 1);
                entry = \<lparr>key = take (KEY_SIZE - 1) k, csv_offset = line_start, next_entry = b\<rparr>
            in
            if \<not> seek_end_ok io then f
            else
              let new_entry_offset = ix_size f in
              if \<not> write_entry_ok io then f
              else
                let f1 = f\<lparr>ix_entry := (ix_entry f)(new_entry_offset \<mapsto> entry),
                           ix_size := ix_size f + sizeof_EntryDisk\<rparr>
                in
                if \<not> seek_bucket_again_ok io then f1
                else if \<not> write_bucket_ok io then f1
                else f1\<lparr>ix_bucket := (ix_bucket f1)(bucket_offset \<mapsto> new_entry_offset)\<rparr>)"


text \<open>
  The world \<open>build_index\<close> and the searches run in. \<open>csv_file\<close> holds the bytes the
  record store delivers before its end (\<open>None\<close> when it cannot be opened); reading it
  fails only there. \<open>index_file\<close> is the index file found on disk (\<open>None\<close> when there
  is none). The other fields say which calls of a build succeed.
\<close>

record io_env =
  csv_file :: "string option"
  index_file :: "idx_file option"
  idx_creatable :: bool
  header_write_ok :: bool
  bucket_write_ok :: "nat \<Rightarrow> bool"
  line_io_at :: "int \<Rightarrow> line_io"

datatype build_error =
  CsvOpenFailed | IdxCreateFailed | HeaderWriteFailed | BucketWriteFailed | CsvEmpty

definition LINE_SIZE :: nat where "LINE_SIZE = 4096"

lemma read_line_append: "fst (read_line k s) @ snd (read_line k s) = s"
  by (induction k s rule: read_line.induct) (auto split: prod.splits)

lemma read_line_shorter: "0 < k \<Longrightarrow> s \<noteq> [] \<Longrightarrow> length (snd (read_line k s)) < length s"
proof (induction k s rule: read_line.induct)
  case (1 k)
  then show ?case by simp
next
  case (2 k c cs)
  have "length (snd (read_line (k - 1) cs)) \<le> length cs"
    using read_line_append [of "k - 1" cs]
    by (metis length_append le_add2)
  then show ?case using 2 by (auto split: prod.splits)
qed

lemma fgets_shorter: "1 < n \<Longrightarrow> fgets n s = Some (l, r) \<Longrightarrow> length r < length s"
  using read_line_shorter [of "n - 1" s] by (auto simp: fgets_def split: if_splits)

text \<open>The empty bucket slots written after the header, slot \<open>i\<close> onwards.\<close>

function init_buckets :: "(nat \<Rightarrow> bool) \<Rightarrow> nat \<Rightarrow> idx_file \<Rightarrow> idx_file option" where
  "init_buckets ok i f =
     (if i < N_BUCKETS then
        (if ok i then
           init_buckets ok (i + 1)
             (f\<lparr>ix_bucket := (ix_bucket f)(ix_size f \<mapsto> - 1),
                ix_size := ix_size f + sizeof_BucketDisk\<rparr>)
         else None)
      else Some f)"
  by pat_completeness auto
termination
  by (relation "measure (\<lambda>(ok, i, f). N_BUCKETS - i)") auto

declare init_buckets.simps [simp del]

text \<open>
  The line loop of \<open>build_index\<close>: \<open>pos\<close> is \<open>ftell(csv)\<close> and \<open>rest\<close> the bytes of the
  record store from there.
\<close>

function build_loop :: "hasher \<Rightarrow> (int \<Rightarrow> line_io) \<Rightarrow> idx_file \<Rightarrow> int \<Rightarrow> string \<Rightarrow> idx_file" where
  "build_loop hs io f pos rest =
     (case fgets LINE_SIZE rest of
        None \<Rightarrow> f
      | Some (line, rest') \<Rightarrow>
          build_loop hs io (insert_line hs (io pos) f pos line) (pos + int (length line)) rest')"
  by pat_completeness auto
termination
  by (relation "measure (\<lambda>(hs, io, f, pos, rest). length rest)")
     (auto simp: LINE_SIZE_def dest: fgets_shorter [rotated])

declare build_loop.simps [simp del]

definition new_index :: idx_file where
  "new_index =
     \<lparr>ix_header = Some \<lparr>n_buckets = int N_BUCKETS,
                         offset_buckets = sizeof_IndexHeader,
                         offset_entries = sizeof_IndexHeader + sizeof_BucketDisk * int N_BUCKETS\<rparr>,
      ix_bucket = (\<lambda>off. None),
      ix_entry = (\<lambda>off. None),
      ix_size = sizeof_IndexHeader\<rparr>"

definition build_index :: "hasher \<Rightarrow> io_env \<Rightarrow> build_error + idx_file" where
  "build_index hs env =
     (case csv_file env of
        None \<Rightarrow> Inl CsvOpenFailed
      | Some csv \<Rightarrow>
          if \<not> idx_creatable env then Inl IdxCreateFailed
          else if \<not> header_write_ok env then Inl HeaderWriteFailed
          else
            (case init_buckets (bucket_write_ok env) 0 new_index of
               None \<Rightarrow> Inl BucketWriteFailed
             | Some f \<Rightarrow>
                 (case fgets LINE_SIZE csv of
                    None \<Rightarrow> Inl CsvEmpty
                  | Some (header_line, rest) \<Rightarrow>
                      Inr (build_loop hs (line_io_at env) f (int (length header_line)) rest))))"

text \<open>The \<open>int\<close> that \<open>build_index\<close> returns: -1 at each of its error returns, else 0.\<close>

definition build_status :: "build_error + idx_file \<Rightarrow> int" where
  "build_status r = (case r of Inl e \<Rightarrow> - 1 | Inr f \<Rightarrow> 0)"


subsection \<open>search_by_keyword\<close>

text \<open>
  The state of the keyword search: the counter \<open>found\<close> and the lines printed so far
  (\<open>printf("%s", line)\<close> prints the C string of the line buffer).
\<close>

record kw_state =
  kw_found :: nat
  kw_printed :: "string list"

definition kw_match :: "bool \<Rightarrow> string \<Rightarrow> string \<Rightarrow> bool" where
  "kw_match exact k keyword =
     (if exact then strcasecmp k keyword = 0
      else ci_strcasestr (Some k) (Some keyword) \<noteq> None)"

definition kw_on_match :: "string \<Rightarrow> EntryDisk \<Rightarrow> kw_state \<Rightarrow> kw_state" where
  "kw_on_match csv e st =
     st\<lparr>kw_found := kw_found st + 1,
        kw_printed := kw_printed st @
          (case fgets_at LINE_SIZE csv (csv_offset e) of
             None \<Rightarrow> []
           | Some line \<Rightarrow> [cstr line])\<rparr>"

text \<open>
  The walk along one chain. Each entry read costs one unit of \<open>fuel\<close>; \<open>None\<close> means the
  walk had not ended when the fuel ran out. The flag returned says whether the walk left
  by \<open>goto FIN\<close>.
\<close>

fun kw_walk :: "nat \<Rightarrow> string \<Rightarrow> bool \<Rightarrow> idx_file \<Rightarrow> string \<Rightarrow> kw_state \<Rightarrow> int
    \<Rightarrow> (kw_state \<times> bool) option" where
  "kw_walk 0 keyword exact f csv st current =
     (if current = - 1 then Some (st, False) else None)"
| "kw_walk (Suc fuel) keyword exact f csv st current =
     (if current = - 1 then Some (st, False)
      else
        (case ix_entry f current of
           None \<Rightarrow> Some (st, False)
         | Some entry \<Rightarrow>
             if kw_match exact (key entry) keyword then
               (let st' = kw_on_match csv entry st in
                if kw_found st' \<ge> 50 then Some (st', True)
                else kw_walk fuel keyword exact f csv st' (next_entry entry))
             else kw_walk fuel keyword exact f csv st (next_entry entry)))"

text \<open>The loop over the bucket offsets \<open>offset_start .. offset_end\<close> around \<open>h\<close>.\<close>

fun kw_buckets :: "nat \<Rightarrow> string \<Rightarrow> bool \<Rightarrow> idx_file \<Rightarrow> string \<Rightarrow> nat \<Rightarrow> int list \<Rightarrow> kw_state
    \<Rightarrow> kw_state option" where
  "kw_buckets fuel keyword exact f csv h [] st = Some st"
| "kw_buckets fuel keyword exact f csv h (offset # offsets) st =
     (let bucket_index = int h + offset in
      if bucket_index < 0 \<or> bucket_index \<ge> int N_BUCKETS
      then kw_buckets fuel keyword exact f csv h offsets st
      else
        (case ix_bucket f (bucket_offset_of bucket_index) of
           None \<Rightarrow> kw_buckets fuel keyword exact f csv h offsets st
         | Some b \<Rightarrow>
             (case kw_walk fuel keyword exact f csv st b of
                None \<Rightarrow> None
              | Some (st', fin) \<Rightarrow>
                  if fin then Some st'
                  else kw_buckets fuel keyword exact f csv h offsets st')))"

datatype search_error = NullArgument | BuildFailed | OpenFailed | HeaderUnreadable

text \<open>The index a search works on: the one on disk, or a fresh build when there is none.\<close>

definition ensure_index :: "hasher \<Rightarrow> io_env \<Rightarrow> build_error + idx_file" where
  "ensure_index hs env =
     (case index_file env of None \<Rightarrow> build_index hs env | Some f \<Rightarrow> Inr f)"

definition search_by_keyword :: "hasher \<Rightarrow> nat \<Rightarrow> io_env \<Rightarrow> string option \<Rightarrow> bool
    \<Rightarrow> (search_error + kw_state) option" where
  "search_by_keyword hs fuel env keyword exact =
     (case keyword of
        None \<Rightarrow> Some (Inl NullArgument)
      | Some kw \<Rightarrow>
          (case ensure_index hs env of
             Inl e \<Rightarrow> Some (Inl BuildFailed)
           | Inr f \<Rightarrow>
               (case csv_file env of
                  None \<Rightarrow> Some (Inl OpenFailed)
                | Some csv \<Rightarrow>
                    let h = hs kw mod N_BUCKETS;
                        offset_start = (if exact then 0 else - RANGE);
                        offset_end = (if exact then 0 else RANGE)
                    in map_option Inr
                         (kw_buckets fuel kw exact f csv h [offset_start..offset_end]
                            \<lparr>kw_found = 0, kw_printed = []\<rparr>))))"

section \<open>The search worker (p1-search.c)\<close>

definition MAX_LINE :: nat where "MAX_LINE = 8192"
definition MAX_RESULTS :: nat where "MAX_RESULTS = 50"
definition BUCKET_RANGE :: int where "BUCKET_RANGE = 12"

definition trim_inplace :: "string \<Rightarrow> string" where
  "trim_inplace s = strip_trailing_space (dropWhile isspace s)"

text \<open>
  \<open>csv_get_column\<close>. \<open>read_quoted\<close> is the loop that copies a quoted target field into
  \<open>out\<close> (a byte is stored only while \<open>pos + 1 < out_sz\<close>); \<open>skip_quoted\<close> is the loop that
  passes over a quoted field before the target; \<open>in_field\<close> is the test of the two loops
  over an unquoted field. In each, \<open>p[1]\<close> at the last byte is the terminating NUL.
\<close>

fun read_quoted :: "nat \<Rightarrow> string \<Rightarrow> string \<Rightarrow> string" where
  "read_quoted out_sz out [] = out"
| "read_quoted out_sz out [c] =
     (if c = DQUOTE then out
      else if length out + 1 < out_sz then out @ [c] else out)"
| "read_quoted out_sz out (c # d # cs) =
     (if c = DQUOTE then
        (if d = DQUOTE
         then read_quoted out_sz (if length out + 1 < out_sz then out @ [DQUOTE] else out) cs
         else out)
      else read_quoted out_sz (if length out + 1 < out_sz then out @ [c] else out) (d # cs))"

fun skip_quoted :: "string \<Rightarrow> string" where
  "skip_quoted [] = []"
| "skip_quoted [c] = []"
| "skip_quoted (c # d # cs) =
     (if c = DQUOTE then (if d = DQUOTE then skip_quoted cs else d # cs)
      else skip_quoted (d # cs))"

definition in_field :: "char \<Rightarrow> bool" where
  "in_field c \<longleftrightarrow> c \<noteq> COMMA \<and> c \<noteq> NL \<and> c \<noteq> CR"

lemma skip_quoted_le: "length (skip_quoted s) \<le> length s"
  by (induction s rule: skip_quoted.induct) auto

function csv_scan :: "nat \<Rightarrow> nat \<Rightarrow> nat \<Rightarrow> string \<Rightarrow> string option" where
  "csv_scan target_col out_sz col [] = None"
| "csv_scan target_col out_sz col (c # cs) =
     (if c = NL \<or> c = CR then None
      else if col = target_col then
        (if c = DQUOTE then Some (trim_inplace (read_quoted out_sz [] cs))
         else
           (let fld = takeWhile in_field (c # cs);
                len = (if length fld \<ge> out_sz then out_sz - 1 else length fld)
            in Some (trim_inplace (take len fld))))
      else if c = DQUOTE then
        (let p = skip_quoted cs in
         if p \<noteq> [] \<and> hd p = COMMA then csv_scan target_col out_sz (col + 1) (tl p)
         else csv_scan target_col out_sz col p)
      else
        (let p = dropWhile in_field (c # cs) in
         if p \<noteq> [] \<and> hd p = COMMA then csv_scan target_col out_sz (col + 1) (tl p)
         else csv_scan target_col out_sz col p))"
  by pat_completeness auto
termination
proof (relation "measure (\<lambda>(t, sz, col, p). length p)", goal_cases)
  case 1
  show ?case by simp
next
  case (2 target_col out_sz col c cs p)
  then show ?case using skip_quoted_le [of cs] by (cases "skip_quoted cs") auto
next
  case (3 target_col out_sz col c cs p)
  then show ?case using skip_quoted_le [of cs] by auto
next
  case (4 target_col out_sz col c cs p)
  then show ?case
    using length_dropWhile_le [of in_field cs]
    by (cases "in_field c") (auto simp: in_field_def split: if_splits)
next
  case (5 target_col out_sz col c cs p)
  then show ?case
    using length_dropWhile_le [of in_field cs]
    by (cases "in_field c") (auto simp: in_field_def split: if_splits)
qed

text \<open>
  \<open>csv_get_column(line, target_col, out, out_sz)\<close>: \<open>Some\<close> of the string left in \<open>out\<close>
  when it returns 1, \<open>None\<close> when it returns 0.
\<close>

definition csv_get_column :: "string \<Rightarrow> nat \<Rightarrow> nat \<Rightarrow> string option" where
  "csv_get_column line target_col out_sz = csv_scan target_col out_sz 1 line"


subsection \<open>search_by_title_and_update\<close>

text \<open>
  The state of the worker's search: the counter \<open>found\<close> and the C string in \<open>resp_buf\<close>
  (\<open>used\<close> is its length).
\<close>

record sw_state =
  sw_found :: nat
  resp_buf :: string

text \<open>The test on \<open>update_value\<close> for the line read into \<open>linebuf\<close>.\<close>

definition pass_update :: "string option \<Rightarrow> string \<Rightarrow> bool" where
  "pass_update update_value linebuf =
     (case update_value of
        None \<Rightarrow> True
      | Some u \<Rightarrow>
          if u = [] then True
          else
            (case csv_get_column linebuf 12 64 of
               None \<Rightarrow> False
             | Some parsed_update \<Rightarrow> strcasecmp parsed_update u = 0))"

text \<open>
  What the body of the chain loop does with an entry whose key matched: the new state,
  and whether it leaves by \<open>goto FINISH_SEARCH\<close>.
\<close>

definition sw_on_match :: "string option \<Rightarrow> string \<Rightarrow> nat \<Rightarrow> EntryDisk \<Rightarrow> sw_state
    \<Rightarrow> sw_state \<times> bool" where
  "sw_on_match update_value csv resp_sz entry st =
     (case fgets_at MAX_LINE csv (csv_offset entry) of
        None \<Rightarrow> (st, False)
      | Some line \<Rightarrow>
          let linebuf = cstr line in
          if pass_update update_value linebuf then
            (let line_len = length linebuf in
             if length (resp_buf st) + line_len + 1 < resp_sz
             then (\<lparr>sw_found = sw_found st + 1, resp_buf = resp_buf st @ linebuf\<rparr>, False)
             else (st, True))
          else (st, False))"

definition sw_visit :: "string \<Rightarrow> string option \<Rightarrow> string \<Rightarrow> nat \<Rightarrow> EntryDisk \<Rightarrow> sw_state
    \<Rightarrow> sw_state \<times> bool" where
  "sw_visit title_value update_value csv resp_sz entry st =
     (if ci_strcasestr (Some (key entry)) (Some title_value) \<noteq> None
      then sw_on_match update_value csv resp_sz entry st
      else (st, False))"

fun sw_walk :: "nat \<Rightarrow> string \<Rightarrow> string option \<Rightarrow> idx_file \<Rightarrow> string \<Rightarrow> nat \<Rightarrow> sw_state \<Rightarrow> int
    \<Rightarrow> (sw_state \<times> bool) option" where
  "sw_walk 0 title_value update_value f csv resp_sz st current =
     (if current \<noteq> - 1 \<and> sw_found st < MAX_RESULTS then None else Some (st, False))"
| "sw_walk (Suc fuel) title_value update_value f csv resp_sz st current =
     (if current \<noteq> - 1 \<and> sw_found st < MAX_RESULTS then
        (case ix_entry f current of
           None \<Rightarrow> Some (st, False)
         | Some entry \<Rightarrow>
             (case sw_visit title_value update_value csv resp_sz entry st of
                (st', fin) \<Rightarrow>
                  if fin then Some (st', True)
                  else sw_walk fuel title_value update_value f csv resp_sz st' (next_entry entry)))
      else Some (st, False))"

fun sw_buckets :: "nat \<Rightarrow> string \<Rightarrow> string option \<Rightarrow> idx_file \<Rightarrow> string \<Rightarrow> nat \<Rightarrow> int \<Rightarrow> nat
    \<Rightarrow> int list \<Rightarrow> sw_state \<Rightarrow> sw_state option" where
  "sw_buckets fuel title_value update_value f csv resp_sz nb h [] st = Some st"
| "sw_buckets fuel title_value update_value f csv resp_sz nb h (off # offs) st =
     (if \<not> sw_found st < MAX_RESULTS then Some st
      else
        let bucket_idx = int h + off in
        if bucket_idx < 0 \<or> bucket_idx \<ge> nb
        then sw_buckets fuel title_value update_value f csv resp_sz nb h offs st
        else
          (case ix_bucket f (bucket_offset_of bucket_idx) of
             None \<Rightarrow> sw_buckets fuel title_value update_value f csv resp_sz nb h offs st
           | Some b \<Rightarrow>
               (case sw_walk fuel title_value update_value f csv resp_sz st b of
                  None \<Rightarrow> None
                | Some (st', fin) \<Rightarrow>
                    if fin then Some st'
                    else sw_buckets fuel title_value update_value f csv resp_sz nb h offs st')))"

text \<open>The bucket count a reader of the header works with.\<close>

definition header_bucket_count :: "IndexHeader \<Rightarrow> int" where
  "header_bucket_count header =
     (if n_buckets header \<le> 0 then int N_BUCKETS else n_buckets header)"

definition sw_home_bucket :: "hasher \<Rightarrow> IndexHeader \<Rightarrow> string \<Rightarrow> nat" where
  "sw_home_bucket hs header title_value = hs title_value mod nat (header_bucket_count header)"

text \<open>
  \<open>search_by_title_and_update\<close>. \<open>resp\<close> is the size of the caller's buffer, \<open>None\<close> for
  a NULL buffer. An error is the return value -1; otherwise the function returns
  \<open>sw_found\<close> and leaves \<open>resp_buf\<close> in the buffer.
\<close>

definition search_by_title_and_update :: "hasher \<Rightarrow> nat \<Rightarrow> io_env \<Rightarrow> string option
    \<Rightarrow> string option \<Rightarrow> nat option \<Rightarrow> (search_error + sw_state) option" where
  "search_by_title_and_update hs fuel env title_value update_value resp =
     (case (title_value, resp) of
        (Some title, Some resp_sz) \<Rightarrow>
          (case ensure_index hs env of
             Inl e \<Rightarrow> Some (Inl BuildFailed)
           | Inr f \<Rightarrow>
               (case csv_file env of
                  None \<Rightarrow> Some (Inl OpenFailed)
                | Some csv \<Rightarrow>
                    (case ix_header f of
                       None \<Rightarrow> Some (Inl HeaderUnreadable)
                     | Some header \<Rightarrow>
                         map_option Inr
                           (sw_buckets fuel title update_value f csv resp_sz
                              (header_bucket_count header) (sw_home_bucket hs header title)
                              [- BUCKET_RANGE..BUCKET_RANGE]
                              \<lparr>sw_found = 0, resp_buf = []\<rparr>))))
      | _ \<Rightarrow> Some (Inl NullArgument))"


section \<open>The index after the header and the empty bucket table\<close>

definition empty_table :: "int \<Rightarrow> int option" where
  "empty_table off =
     (if sizeof_IndexHeader \<le> off \<and> off < bucket_offset_of (int N_BUCKETS) \<and>
         (off - sizeof_IndexHeader) mod sizeof_BucketDisk = 0
      then Some (- 1) else None)"

definition empty_index :: idx_file where
  "empty_index = new_index\<lparr>ix_bucket := empty_table, ix_size := bucket_offset_of (int N_BUCKETS)\<rparr>"

definition slots_from :: "nat \<Rightarrow> idx_file \<Rightarrow> int \<Rightarrow> int option" where
  "slots_from i f off =
     (if ix_size f \<le> off \<and> off < ix_size f + sizeof_BucketDisk * int (N_BUCKETS - i) \<and>
         (off - ix_size f) mod sizeof_BucketDisk = 0
      then Some (- 1) else ix_bucket f off)"

lemma slot_range_step:
  fixes s off n :: int
  assumes "0 \<le> n"
  shows "(s + 8 \<le> off \<and> off < s + 8 + 8 * n \<and> (off - (s + 8)) mod 8 = 0) \<or> off = s \<longleftrightarrow>
     (s \<le> off \<and> off < s + 8 * (n + 1) \<and> (off - s) mod 8 = 0)"
  using assms by presburger

lemma init_buckets_run:
  "N_BUCKETS - i = d \<Longrightarrow> i \<le> N_BUCKETS \<Longrightarrow>
   init_buckets ok i f =
     (if \<forall>j. i \<le> j \<and> j < N_BUCKETS \<longrightarrow> ok j
      then Some (f\<lparr>ix_bucket := slots_from i f,
                    ix_size := ix_size f + sizeof_BucketDisk * int (N_BUCKETS - i)\<rparr>)
      else None)"
proof (induction d arbitrary: i f)
  case 0
  then have i: "i = N_BUCKETS" by simp
  have "slots_from N_BUCKETS f = ix_bucket f"
    by (auto simp: slots_from_def fun_eq_iff)
  then show ?case using i
    by (subst init_buckets.simps) simp
next
  case (Suc d)
  then have lt: "i < N_BUCKETS" and d: "N_BUCKETS - (i + 1) = d" and le: "i + 1 \<le> N_BUCKETS"
    by simp_all
  let ?f1 = "f\<lparr>ix_bucket := (ix_bucket f)(ix_size f \<mapsto> - 1),
                ix_size := ix_size f + sizeof_BucketDisk\<rparr>"
  show ?case
  proof (cases "ok i")
    case False
    then show ?thesis using lt by (subst init_buckets.simps) auto
  next
    case True
    have all: "(\<forall>j. i \<le> j \<and> j < N_BUCKETS \<longrightarrow> ok j) \<longleftrightarrow> (\<forall>j. i + 1 \<le> j \<and> j < N_BUCKETS \<longrightarrow> ok j)"
    proof (intro iffI allI impI)
      fix j assume "\<forall>j. i \<le> j \<and> j < N_BUCKETS \<longrightarrow> ok j" "i + 1 \<le> j \<and> j < N_BUCKETS"
      then show "ok j" by simp
    next
      fix j assume a: "\<forall>j. i + 1 \<le> j \<and> j < N_BUCKETS \<longrightarrow> ok j" "i \<le> j \<and> j < N_BUCKETS"
      show "ok j"
      proof (cases "j = i")
        case True
        with \<open>ok i\<close> show ?thesis by simp
      next
        case False
        with a show ?thesis by simp
      qed
    qed
    have sl: "slots_from (i + 1) ?f1 = slots_from i f"
    proof
      fix off
      have n: "int (N_BUCKETS - i) = int (N_BUCKETS - (i + 1)) + 1" using lt by simp
      have "0 \<le> int (N_BUCKETS - (i + 1))" by simp
      from slot_range_step [OF this, of "ix_size f" off]
      show "slots_from (i + 1) ?f1 off = slots_from i f off"
        unfolding slots_from_def n sizeof_BucketDisk_def
        by (cases "off = ix_size f") (simp_all add: add.assoc)
    qed
    have sz: "ix_size ?f1 + sizeof_BucketDisk * int (N_BUCKETS - (i + 1)) =
        ix_size f + sizeof_BucketDisk * int (N_BUCKETS - i)"
      using lt by (simp add: algebra_simps sizeof_BucketDisk_def)
    have "init_buckets ok i f = init_buckets ok (i + 1) ?f1"
      using lt True by (subst init_buckets.simps) simp
    also have "\<dots> = (if \<forall>j. i + 1 \<le> j \<and> j < N_BUCKETS \<longrightarrow> ok j
      then Some (?f1\<lparr>ix_bucket := slots_from (i + 1) ?f1,
                    ix_size := ix_size ?f1 + sizeof_BucketDisk * int (N_BUCKETS - (i + 1))\<rparr>)
      else None)"
      by (rule Suc.IH [OF d le])
    finally show ?thesis unfolding sl sz all by simp
  qed
qed

lemma init_buckets_new:
  "init_buckets ok 0 new_index = (if \<forall>j < N_BUCKETS. ok j then Some empty_index else None)"
proof -
  have "slots_from 0 new_index = empty_table"
    by (auto simp: slots_from_def empty_table_def new_index_def bucket_offset_of_def fun_eq_iff)
  then show ?thesis
    using init_buckets_run [of 0 N_BUCKETS ok new_index]
    by (simp add: empty_index_def bucket_offset_of_def new_index_def)
qed

lemma build_index_unfold:
  "build_index hs env =
     (case csv_file env of
        None \<Rightarrow> Inl CsvOpenFailed
      | Some csv \<Rightarrow>
          if \<not> idx_creatable env then Inl IdxCreateFailed
          else if \<not> header_write_ok env then Inl HeaderWriteFailed
          else if \<not> (\<forall>j < N_BUCKETS. bucket_write_ok env j) then Inl BucketWriteFailed
          else
            (case fgets LINE_SIZE csv of
               None \<Rightarrow> Inl CsvEmpty
             | Some (header_line, rest) \<Rightarrow>
                 Inr (build_loop hs (line_io_at env) empty_index (int (length header_line)) rest)))"
  by (auto simp: build_index_def init_buckets_new split: option.splits)


section \<open>What a search collects\<close>

text \<open>
  A line is accepted by the worker's search when some entry of the index has a key that
  contains the title, the record store yields that line at the entry's offset, and the
  line passes the test on the update value.
\<close>

definition line_accepted :: "idx_file \<Rightarrow> string \<Rightarrow> string \<Rightarrow> string option \<Rightarrow> string \<Rightarrow> bool" where
  "line_accepted f csv title_value update_value l \<longleftrightarrow>
     (\<exists>off entry line. ix_entry f off = Some entry \<and>
        ci_strcasestr (Some (key entry)) (Some title_value) \<noteq> None \<and>
        fgets_at MAX_LINE csv (csv_offset entry) = Some line \<and>
        l = cstr line \<and> pass_update update_value l)"

definition collected :: "idx_file \<Rightarrow> string \<Rightarrow> string \<Rightarrow> string option \<Rightarrow> nat \<Rightarrow> sw_state \<Rightarrow> bool" where
  "collected f csv title_value update_value resp_sz st \<longleftrightarrow>
     (\<exists>ls. resp_buf st = concat ls \<and> sw_found st = length ls \<and>
        (\<forall>l \<in> set ls. line_accepted f csv title_value update_value l \<and>
           length l + 1 < resp_sz)) \<and>
     (sw_found st \<noteq> 0 \<longrightarrow> length (resp_buf st) + 1 < resp_sz) \<and>
     sw_found st \<le> MAX_RESULTS"

lemma collected_init: "collected f csv t u sz \<lparr>sw_found = 0, resp_buf = []\<rparr>"
  unfolding collected_def by (intro conjI exI [of _ "[]"]) simp_all

lemma sw_visit_collected:
  assumes e: "ix_entry f cur = Some entry"
    and v: "sw_visit t u csv sz entry st = (st', fin)"
    and c: "collected f csv t u sz st"
    and lt: "sw_found st < MAX_RESULTS"
  shows "collected f csv t u sz st' \<and> (fin \<longrightarrow> st' = st)"
proof (cases "st' = st")
  case True
  with c show ?thesis by simp
next
  case False
  from v False obtain line where
    m: "ci_strcasestr (Some (key entry)) (Some t) \<noteq> None" and
    l: "fgets_at MAX_LINE csv (csv_offset entry) = Some line" and
    p: "pass_update u (cstr line)" and
    fit: "length (resp_buf st) + length (cstr line) + 1 < sz" and
    st': "st' = \<lparr>sw_found = sw_found st + 1, resp_buf = resp_buf st @ cstr line\<rparr>" and
    nf: "\<not> fin"
    by (auto simp: sw_visit_def sw_on_match_def Let_def split: if_splits option.splits)
  from c obtain ls where ls: "resp_buf st = concat ls" "sw_found st = length ls"
    "\<forall>l \<in> set ls. line_accepted f csv t u l \<and> length l + 1 < sz"
    unfolding collected_def by blast
  have acc: "line_accepted f csv t u (cstr line)"
    unfolding line_accepted_def using e m l p by blast
  have fit1: "length (cstr line) + 1 < sz" using fit by simp
  have "resp_buf st' = concat (ls @ [cstr line])" using ls st' by simp
  moreover have "sw_found st' = length (ls @ [cstr line])" using ls st' by simp
  moreover have "\<forall>l \<in> set (ls @ [cstr line]). line_accepted f csv t u l \<and> length l + 1 < sz"
    using ls acc fit1 by auto
  moreover have "length (resp_buf st') + 1 < sz" using fit st' by simp
  moreover have "sw_found st' \<le> MAX_RESULTS" using lt st' by simp
  ultimately show ?thesis using nf unfolding collected_def by blast
qed

lemma sw_walk_collected:
  "sw_walk fuel t u f csv sz st cur = Some (st', fin) \<Longrightarrow> collected f csv t u sz st \<Longrightarrow>
     collected f csv t u sz st'"
proof (induction fuel arbitrary: st cur)
  case 0
  then show ?case by (auto split: if_splits)
next
  case (Suc fuel)
  show ?case
  proof (cases "cur \<noteq> - 1 \<and> sw_found st < MAX_RESULTS")
    case False
    with Suc.prems show ?thesis by auto
  next
    case g: True
    show ?thesis
    proof (cases "ix_entry f cur")
      case None
      with g Suc.prems show ?thesis by auto
    next
      case (Some entry)
      obtain st1 fin1 where v: "sw_visit t u csv sz entry st = (st1, fin1)"
        by (cases "sw_visit t u csv sz entry st")
      from sw_visit_collected [OF Some v Suc.prems(2)] g
      have c1: "collected f csv t u sz st1" by simp
      show ?thesis
      proof (cases fin1)
        case True
        with g Some v Suc.prems(1) c1 show ?thesis by simp
      next
        case False
        with g Some v Suc.prems(1)
        have "sw_walk fuel t u f csv sz st1 (next_entry entry) = Some (st', fin)" by simp
        from Suc.IH [OF this c1] show ?thesis .
      qed
    qed
  qed
qed

lemma sw_buckets_collected:
  "sw_buckets fuel t u f csv sz nb h offs st = Some st' \<Longrightarrow> collected f csv t u sz st \<Longrightarrow>
     collected f csv t u sz st'"
proof (induction offs arbitrary: st)
  case Nil
  then show ?case by simp
next
  case (Cons off offs)
  show ?case
  proof (cases "sw_found st < MAX_RESULTS")
    case False
    with Cons.prems show ?thesis by simp
  next
    case g: True
    let ?bi = "int h + off"
    show ?thesis
    proof (cases "?bi < 0 \<or> ?bi \<ge> nb")
      case True
      with g Cons.prems(1) have "sw_buckets fuel t u f csv sz nb h offs st = Some st'"
        by (simp add: Let_def)
      from Cons.IH [OF this Cons.prems(2)] show ?thesis .
    next
      case r: False
      show ?thesis
      proof (cases "ix_bucket f (bucket_offset_of ?bi)")
        case None
        with g r Cons.prems(1) have "sw_buckets fuel t u f csv sz nb h offs st = Some st'"
          by (simp add: Let_def)
        from Cons.IH [OF this Cons.prems(2)] show ?thesis .
      next
        case (Some b)
        with g r Cons.prems(1) obtain st1 fin where
          w: "sw_walk fuel t u f csv sz st b = Some (st1, fin)" and
          k: "if fin then st' = st1 else sw_buckets fuel t u f csv sz nb h offs st1 = Some st'"
          by (auto simp: Let_def split: option.splits if_splits)
        from sw_walk_collected [OF w Cons.prems(2)] have c1: "collected f csv t u sz st1" .
        show ?thesis
        proof (cases fin)
          case True
          with k c1 show ?thesis by simp
        next
          case False
          with k have "sw_buckets fuel t u f csv sz nb h offs st1 = Some st'" by simp
          from Cons.IH [OF this c1] show ?thesis .
        qed
      qed
    qed
  qed
qed

lemma search_collected:
  assumes "search_by_title_and_update hs fuel env (Some t) u (Some sz) = Some (Inr r)"
  shows "\<exists>f csv. ensure_index hs env = Inr f \<and> csv_file env = Some csv \<and> collected f csv t u sz r"
  using assms sw_buckets_collected [OF _ collected_init]
  by (auto simp: search_by_title_and_update_def split: sum.splits option.splits)

lemma kw_on_match_found: "kw_found (kw_on_match csv e st) = kw_found st + 1"
  by (simp add: kw_on_match_def)

lemma kw_on_match_printed:
  "length (kw_printed (kw_on_match csv e st)) \<le> length (kw_printed st) + 1"
  by (simp add: kw_on_match_def split: option.splits)

lemma kw_walk_cap:
  "kw_walk fuel keyword exact f csv st current = Some (st', fin) \<Longrightarrow> kw_found st < 50 \<Longrightarrow>
     length (kw_printed st) \<le> kw_found st \<Longrightarrow>
     kw_found st' \<le> 50 \<and> (fin \<longleftrightarrow> kw_found st' = 50) \<and> length (kw_printed st') \<le> kw_found st'"
proof (induction fuel arbitrary: st current)
  case 0
  then show ?case by (auto split: if_splits)
next
  case (Suc fuel)
  show ?case
  proof (cases "current = - 1")
    case True
    with Suc.prems show ?thesis by auto
  next
    case False
    show ?thesis
    proof (cases "ix_entry f current")
      case None
      with False Suc.prems show ?thesis by auto
    next
      case (Some entry)
      show ?thesis
      proof (cases "kw_match exact (key entry) keyword")
        case m: True
        let ?st1 = "kw_on_match csv entry st"
        have f1: "kw_found ?st1 = kw_found st + 1" by (rule kw_on_match_found)
        have p1: "length (kw_printed ?st1) \<le> kw_found ?st1"
          using kw_on_match_printed [of csv entry st] Suc.prems(3) f1 by linarith
        show ?thesis
        proof (cases "kw_found ?st1 \<ge> 50")
          case True
          with False Some m Suc.prems f1 p1 show ?thesis by (auto simp: Let_def)
        next
          case c: False
          with False Some m Suc.prems(1)
          have "kw_walk fuel keyword exact f csv ?st1 (next_entry entry) = Some (st', fin)"
            by (simp add: Let_def)
          from Suc.IH [OF this] c p1 show ?thesis by simp
        qed
      next
        case m: False
        with False Some Suc.prems(1)
        have "kw_walk fuel keyword exact f csv st (next_entry entry) = Some (st', fin)"
          by simp
        from Suc.IH [OF this Suc.prems(2,3)] show ?thesis .
      qed
    qed
  qed
qed

lemma kw_buckets_cap:
  "kw_buckets fuel keyword exact f csv h offsets st = Some st' \<Longrightarrow> kw_found st < 50 \<Longrightarrow>
     length (kw_printed st) \<le> kw_found st \<Longrightarrow>
     kw_found st' \<le> 50 \<and> length (kw_printed st') \<le> kw_found st'"
proof (induction offsets arbitrary: st)
  case Nil
  then show ?case by simp
next
  case (Cons offset offsets)
  let ?bi = "int h + offset"
  show ?case
  proof (cases "?bi < 0 \<or> ?bi \<ge> int N_BUCKETS")
    case True
    with Cons.prems(1) have "kw_buckets fuel keyword exact f csv h offsets st = Some st'"
      by (simp add: Let_def)
    from Cons.IH [OF this Cons.prems(2,3)] show ?thesis .
  next
    case r: False
    show ?thesis
    proof (cases "ix_bucket f (bucket_offset_of ?bi)")
      case None
      with r Cons.prems(1) have "kw_buckets fuel keyword exact f csv h offsets st = Some st'"
        by (simp add: Let_def)
      from Cons.IH [OF this Cons.prems(2,3)] show ?thesis .
    next
      case (Some b)
      with r Cons.prems(1) obtain st1 fin where
        w: "kw_walk fuel keyword exact f csv st b = Some (st1, fin)" and
        k: "if fin then st' = st1 else kw_buckets fuel keyword exact f csv h offsets st1 = Some st'"
        by (auto simp: Let_def split: option.splits if_splits)
      from kw_walk_cap [OF w Cons.prems(2,3)]
      have c: "kw_found st1 \<le> 50" "fin \<longleftrightarrow> kw_found st1 = 50"
        "length (kw_printed st1) \<le> kw_found st1" by auto
      show ?thesis
      proof (cases fin)
        case True
        with k c show ?thesis by simp
      next
        case False
        with k have "kw_buckets fuel keyword exact f csv h offsets st1 = Some st'" by simp
        moreover from False c have "kw_found st1 < 50" by simp
        ultimately show ?thesis using Cons.IH c(3) by blast
      qed
    qed
  qed
qed

section \<open>A small record store for concrete runs\<close>

text \<open>
  A header line and three records; with the hasher above the keys fall into the buckets
  36, 180 and 29, and the title \<open>deep\<close> into bucket 35.
\<close>

definition demo_csv :: string where
  "demo_csv =
     ''id,submitter,authors,title,c5,c6,c7,c8,c9,c10,c11,update_date'' @ [NL] @
     ''1,s,a,deep sleep,c,j,d,r,k,l,m,2020-01-01'' @ [NL] @
     ''2,s,a,Shallow Networks,c,j,d,r,k,l,m,2021-05-05'' @ [NL] @
     ''3,s,a,deep fried,c,j,d,r,k,l,m,2021-05-05'' @ [NL]"

definition demo_env :: io_env where
  "demo_env = \<lparr>csv_file = Some demo_csv, index_file = None, idx_creatable = True,
     header_write_ok = True, bucket_write_ok = (\<lambda>i. True), line_io_at = (\<lambda>pos. all_ok)\<rparr>"

lemmas run_defs =
  build_index_unfold ensure_index_def build_loop.simps insert_line_def line_key_def
  fgets_def fgets_at_def cstr_def strtok_def is_delim_def limpiar_texto_def
  strip_trailing_space.simps isspace_def tolower_def
  hash_string_djb2_def hash_step_def bucket_offset_of_def
  N_BUCKETS_def KEY_SIZE_def LINE_SIZE_def MAX_LINE_def MAX_RESULTS_def RANGE_def BUCKET_RANGE_def
  sizeof_IndexHeader_def sizeof_BucketDisk_def sizeof_EntryDisk_def
  empty_index_def empty_table_def new_index_def all_ok_def
  search_by_keyword_def kw_match_def kw_on_match_def ci_strcasestr_def
  search_by_title_and_update_def sw_visit_def sw_on_match_def pass_update_def
  header_bucket_count_def sw_home_bucket_def csv_get_column_def trim_inplace_def in_field_def
  Let_def upto.simps


section \<open>The result cap\<close>

lemma sw_walk_at_cap:
  "sw_found st \<ge> MAX_RESULTS \<Longrightarrow> sw_walk fuel t u f csv sz st cur = Some (st, False)"
  by (cases fuel) simp_all

lemma kw_walk_reaches_cap:
  "kw_found st + 1 \<ge> 50 \<Longrightarrow> cur \<noteq> - 1 \<Longrightarrow> ix_entry f cur = Some e \<Longrightarrow>
   kw_match exact (key e) kw \<Longrightarrow>
   kw_walk (Suc fuel) kw exact f csv st cur = Some (kw_on_match csv e st, True)"
  by (simp add: Let_def kw_on_match_found)

lemma search_by_keyword_cap:
  assumes "search_by_keyword hs fuel env keyword exact = Some (Inr r)"
  shows "kw_found r \<le> 50 \<and> length (kw_printed r) \<le> 50"
proof -
  from assms obtain kw f csv offs where
    "kw_buckets fuel kw exact f csv (hs kw mod N_BUCKETS) offs \<lparr>kw_found = 0, kw_printed = []\<rparr> = Some r"
    by (auto simp: search_by_keyword_def Let_def split: option.splits sum.splits)
  from kw_buckets_cap [OF this] show ?thesis by simp
qed

text \<open>
  C6: the number of results a search returns never exceeds the maximum of 50, for the
  keyword search and for the worker's search, whatever the index holds. The walk stops
  at the cap: the worker's chain loop reads no further entry once 50 are found, and the
  keyword search leaves both loops at the match that makes the count 50.
\<close>

theorem result_count_never_exceeds_cap:
  "(search_by_keyword hs fuel env keyword exact = Some (Inr r) \<longrightarrow>
      kw_found r \<le> 50 \<and> length (kw_printed r) \<le> 50) \<and>
   (search_by_title_and_update hs fuel env title_value update_value resp = Some (Inr r') \<longrightarrow>
      sw_found r' \<le> 50) \<and>
   (sw_found st \<ge> MAX_RESULTS \<longrightarrow> sw_walk fuel t u f csv sz st cur = Some (st, False)) \<and>
   (kw_found kst + 1 \<ge> 50 \<and> cur \<noteq> - 1 \<and> ix_entry f cur = Some e \<and> kw_match exact (key e) kw \<longrightarrow>
      kw_walk (Suc fuel) kw exact f csv kst cur = Some (kw_on_match csv e kst, True))"
proof (intro conjI impI)
  assume "search_by_keyword hs fuel env keyword exact = Some (Inr r)"
  from search_by_keyword_cap [OF this]
  show "kw_found r \<le> 50" and "length (kw_printed r) \<le> 50" by simp_all
next
  assume a: "search_by_title_and_update hs fuel env title_value update_value resp = Some (Inr r')"
  then obtain t' sz' where "title_value = Some t'" "resp = Some sz'"
    by (auto simp: search_by_title_and_update_def split: option.splits)
  with a search_collected [of hs fuel env t' update_value sz' r']
  show "sw_found r' \<le> 50" by (auto simp: collected_def MAX_RESULTS_def)
next
  assume "sw_found st \<ge> MAX_RESULTS"
  then show "sw_walk fuel t u f csv sz st cur = Some (st, False)" by (rule sw_walk_at_cap)
next
  assume "kw_found kst + 1 \<ge> 50 \<and> cur \<noteq> - 1 \<and> ix_entry f cur = Some e \<and> kw_match exact (key e) kw"
  then show "kw_walk (Suc fuel) kw exact f csv kst cur = Some (kw_on_match csv e kst, True)"
    using kw_walk_reaches_cap by blast
qed


definition demo_entry :: EntryDisk where
  "demo_entry = \<lparr>key = ''deep sleep'', csv_offset = 62, next_entry = - 1\<rparr>"

definition demo_index :: idx_file where
  "demo_index = empty_index\<lparr>ix_entry := [8024 \<mapsto> demo_entry]\<rparr>"

theorem result_count_never_exceeds_cap_witness:
  "search_by_keyword hash_string_djb2 (Suc (Suc (Suc 0))) demo_env (Some ''deep sleep'') True =
     Some (Inr \<lparr>kw_found = 1,
                 kw_printed = [''1,s,a,deep sleep,c,j,d,r,k,l,m,2020-01-01'' @ [NL]]\<rparr>) \<and>
   kw_found \<lparr>kw_found = 1,
              kw_printed = [''1,s,a,deep sleep,c,j,d,r,k,l,m,2020-01-01'' @ [NL]]\<rparr> \<le> 50 \<and>
   search_by_title_and_update hash_string_djb2 (Suc (Suc (Suc 0))) demo_env (Some ''deep'') None
       (Some 2048) =
     Some (Inr \<lparr>sw_found = 2,
                 resp_buf = ''3,s,a,deep fried,c,j,d,r,k,l,m,2021-05-05'' @ [NL] @
                            ''1,s,a,deep sleep,c,j,d,r,k,l,m,2020-01-01'' @ [NL]\<rparr>) \<and>
   sw_found \<lparr>sw_found = 2,
              resp_buf = ''3,s,a,deep fried,c,j,d,r,k,l,m,2021-05-05'' @ [NL] @
                         ''1,s,a,deep sleep,c,j,d,r,k,l,m,2020-01-01'' @ [NL]\<rparr> \<le> 50 \<and>
   sw_found \<lparr>sw_found = 50, resp_buf = []\<rparr> \<ge> MAX_RESULTS \<and>
   sw_walk (Suc (Suc (Suc 0))) ''deep'' None demo_index demo_csv 2048 \<lparr>sw_found = 50, resp_buf = []\<rparr> 8024 =
     Some (\<lparr>sw_found = 50, resp_buf = []\<rparr>, False) \<and>
   kw_found \<lparr>kw_found = 49, kw_printed = []\<rparr> + 1 \<ge> 50 \<and>
   ix_entry demo_index 8024 = Some demo_entry \<and>
   kw_match True (key demo_entry) ''DEEP SLEEP'' \<and>
   kw_walk (Suc (Suc (Suc (Suc 0)))) ''DEEP SLEEP'' True demo_index demo_csv \<lparr>kw_found = 49, kw_printed = []\<rparr>
       8024 =
     Some (kw_on_match demo_csv demo_entry \<lparr>kw_found = 49, kw_printed = []\<rparr>, True)"
proof -
  let ?r = "\<lparr>kw_found = 1,
              kw_printed = [''1,s,a,deep sleep,c,j,d,r,k,l,m,2020-01-01'' @ [NL]]\<rparr>"
  let ?r' = "\<lparr>sw_found = 2,
               resp_buf = ''3,s,a,deep fried,c,j,d,r,k,l,m,2021-05-05'' @ [NL] @
                          ''1,s,a,deep sleep,c,j,d,r,k,l,m,2020-01-01'' @ [NL]\<rparr>"
  have a: "search_by_keyword hash_string_djb2 (Suc (Suc (Suc 0))) demo_env (Some ''deep sleep'') True =
      Some (Inr ?r)"
    by (simp add: run_defs demo_env_def demo_csv_def)
  have b: "search_by_title_and_update hash_string_djb2 (Suc (Suc (Suc 0))) demo_env (Some ''deep'')
      None (Some 2048) = Some (Inr ?r')"
    by (simp add: run_defs demo_env_def demo_csv_def)
  have c: "sw_found \<lparr>sw_found = 50, resp_buf = []\<rparr> \<ge> MAX_RESULTS"
    by (simp add: MAX_RESULTS_def)
  have d: "kw_found \<lparr>kw_found = 49, kw_printed = []\<rparr> + 1 \<ge> 50 \<and> (8024::int) \<noteq> - 1 \<and>
      ix_entry demo_index 8024 = Some demo_entry \<and> kw_match True (key demo_entry) ''DEEP SLEEP''"
    by (simp add: demo_index_def demo_entry_def kw_match_def tolower_def)
  note t = result_count_never_exceeds_cap [where hs = hash_string_djb2
      and fuel = "Suc (Suc (Suc 0))" and env = demo_env and keyword = "Some ''deep sleep''"
      and exact = True and r = ?r and title_value = "Some ''deep''" and update_value = None
      and resp = "Some 2048" and r' = ?r' and st = "\<lparr>sw_found = 50, resp_buf = []\<rparr>"
      and t = "''deep''" and u = None and f = demo_index and csv = demo_csv and sz = 2048
      and cur = 8024 and kst = "\<lparr>kw_found = 49, kw_printed = []\<rparr>" and e = demo_entry
      and kw = "''DEEP SLEEP''"]
  from t a have 1: "kw_found ?r \<le> 50" by blast
  from t b have 2: "sw_found ?r' \<le> 50" by blast
  from t c have 3: "sw_walk (Suc (Suc (Suc 0))) ''deep'' None demo_index demo_csv 2048
      \<lparr>sw_found = 50, resp_buf = []\<rparr> 8024 = Some (\<lparr>sw_found = 50, resp_buf = []\<rparr>, False)"
    by blast
  from t d have 4: "kw_walk (Suc (Suc (Suc (Suc 0)))) ''DEEP SLEEP'' True demo_index demo_csv
      \<lparr>kw_found = 49, kw_printed = []\<rparr> 8024 =
      Some (kw_on_match demo_csv demo_entry \<lparr>kw_found = 49, kw_printed = []\<rparr>, True)"
    by blast
  from a b c d 1 2 3 4 show ?thesis by blast
qed


section \<open>The empty needle\<close>

text \<open>
  C10: \<open>ci_strcasestr\<close> returns the haystack itself for an empty needle that is not
  NULL, so with an empty query key the keyword search in substring mode and the worker's
  search take every entry they read as a key match.
\<close>

theorem empty_needle_matches_every_entry:
  "ci_strcasestr (Some haystack) (Some []) = Some haystack \<and>
   kw_match False (key entry) [] \<and>
   sw_visit [] update_value csv resp_sz entry st = sw_on_match update_value csv resp_sz entry st"
  by (simp add: ci_strcasestr_def kw_match_def sw_visit_def)

section \<open>The secondary filter\<close>

lemma pass_update_iff:
  "u \<noteq> [] \<Longrightarrow>
   pass_update (Some u) l \<longleftrightarrow> (\<exists>v. csv_get_column l 12 64 = Some v \<and> strcasecmp v u = 0)"
  by (simp add: pass_update_def split: option.splits)

lemma line_accepted_filter:
  "u \<noteq> [] \<Longrightarrow> line_accepted f csv t (Some u) l \<Longrightarrow>
   \<exists>v. csv_get_column l 12 64 = Some v \<and> strcasecmp v u = 0"
  unfolding line_accepted_def using pass_update_iff by blast

lemma sw_visit_changed:
  assumes "sw_visit t u csv sz e st \<noteq> (st, False)"
  shows "\<exists>line. ci_strcasestr (Some (key e)) (Some t) \<noteq> None \<and>
           fgets_at MAX_LINE csv (csv_offset e) = Some line \<and> pass_update u (cstr line)"
  using assms
  by (auto simp: sw_visit_def sw_on_match_def Let_def split: if_splits option.splits)

text \<open>
  C7: with a non-empty filter value, the worker's search accepts an entry whose key
  matched only if column 12 of the line read at the entry's offset equals the filter
  value, case ignored; an entry the filter rejects leaves the counter and the buffer as
  they were; and when no entry of the index has a line that passes the filter, the
  search returns 0.
\<close>

theorem secondary_filter_gates_acceptance:
  assumes "u \<noteq> []"
  shows
  "(sw_visit t (Some u) csv sz e st \<noteq> (st, False) \<longrightarrow>
      (\<exists>line v. fgets_at MAX_LINE csv (csv_offset e) = Some line \<and>
         csv_get_column (cstr line) 12 64 = Some v \<and> strcasecmp v u = 0)) \<and>
   (search_by_title_and_update hs fuel env (Some t) (Some u) (Some sz) = Some (Inr r) \<longrightarrow>
      (\<exists>ls. resp_buf r = concat ls \<and> sw_found r = length ls \<and>
         (\<forall>l \<in> set ls. \<exists>v. csv_get_column l 12 64 = Some v \<and> strcasecmp v u = 0))) \<and>
   (search_by_title_and_update hs fuel env (Some t) (Some u) (Some sz) = Some (Inr r) \<and>
    ensure_index hs env = Inr f \<and> csv_file env = Some csv' \<and>
    (\<forall>off e' line. ix_entry f off = Some e' \<and>
        fgets_at MAX_LINE csv' (csv_offset e') = Some line \<longrightarrow>
        \<not> (\<exists>v. csv_get_column (cstr line) 12 64 = Some v \<and> strcasecmp v u = 0)) \<longrightarrow>
      sw_found r = 0)"
proof (intro conjI impI)
  assume "sw_visit t (Some u) csv sz e st \<noteq> (st, False)"
  from sw_visit_changed [OF this] assms
  show "\<exists>line v. fgets_at MAX_LINE csv (csv_offset e) = Some line \<and>
      csv_get_column (cstr line) 12 64 = Some v \<and> strcasecmp v u = 0"
    using pass_update_iff by blast
next
  assume "search_by_title_and_update hs fuel env (Some t) (Some u) (Some sz) = Some (Inr r)"
  from search_collected [OF this] obtain g c ls where
    "resp_buf r = concat ls" "sw_found r = length ls"
    "\<forall>l \<in> set ls. line_accepted g c t (Some u) l \<and> length l + 1 < sz"
    unfolding collected_def by blast
  then show "\<exists>ls. resp_buf r = concat ls \<and> sw_found r = length ls \<and>
      (\<forall>l \<in> set ls. \<exists>v. csv_get_column l 12 64 = Some v \<and> strcasecmp v u = 0)"
    using line_accepted_filter [OF assms] by blast
next
  assume a: "search_by_title_and_update hs fuel env (Some t) (Some u) (Some sz) = Some (Inr r) \<and>
    ensure_index hs env = Inr f \<and> csv_file env = Some csv' \<and>
    (\<forall>off e' line. ix_entry f off = Some e' \<and>
        fgets_at MAX_LINE csv' (csv_offset e') = Some line \<longrightarrow>
        \<not> (\<exists>v. csv_get_column (cstr line) 12 64 = Some v \<and> strcasecmp v u = 0))"
  then have s: "search_by_title_and_update hs fuel env (Some t) (Some u) (Some sz) = Some (Inr r)"
    by simp
  from search_collected [OF s] a obtain ls where
    ls: "sw_found r = length ls" "\<forall>l \<in> set ls. line_accepted f csv' t (Some u) l"
    unfolding collected_def by auto
  have "ls = []"
  proof (cases ls)
    case (Cons l ls')
    with ls have "line_accepted f csv' t (Some u) l" by simp
    then obtain off e' line where "ix_entry f off = Some e'"
      "fgets_at MAX_LINE csv' (csv_offset e') = Some line" "l = cstr line"
      "pass_update (Some u) l"
      unfolding line_accepted_def by blast
    with a pass_update_iff [OF assms] show ?thesis by blast
  qed simp
  with ls show "sw_found r = 0" by simp
qed


definition demo_built :: idx_file where
  "demo_built =
     empty_index
       \<lparr>ix_bucket := empty_table(312 \<mapsto> 8024, 1464 \<mapsto> 8296, 256 \<mapsto> 8568),
        ix_entry :=
          [8024 \<mapsto> \<lparr>key = ''deep sleep'', csv_offset = 62, next_entry = - 1\<rparr>,
           8296 \<mapsto> \<lparr>key = ''Shallow Networks'', csv_offset = 104, next_entry = - 1\<rparr>,
           8568 \<mapsto> \<lparr>key = ''deep fried'', csv_offset = 152, next_entry = - 1\<rparr>],
        ix_size := 8840\<rparr>"

lemma demo_built_eq: "build_index hash_string_djb2 demo_env = Inr demo_built"
  by (simp add: run_defs demo_env_def demo_csv_def demo_built_def)

theorem secondary_filter_gates_acceptance_witness:
  "''2021-05-05'' \<noteq> [] \<and>
   sw_visit ''deep'' (Some ''2021-05-05'') demo_csv 2048
       \<lparr>key = ''deep fried'', csv_offset = 152, next_entry = - 1\<rparr>
       \<lparr>sw_found = 0, resp_buf = []\<rparr> \<noteq> (\<lparr>sw_found = 0, resp_buf = []\<rparr>, False) \<and>
   (\<exists>line v. fgets_at MAX_LINE demo_csv 152 = Some line \<and>
      csv_get_column (cstr line) 12 64 = Some v \<and> strcasecmp v ''2021-05-05'' = 0) \<and>
   search_by_title_and_update hash_string_djb2 (Suc (Suc (Suc 0))) demo_env (Some ''deep'')
       (Some ''2021-05-05'') (Some 2048) =
     Some (Inr \<lparr>sw_found = 1,
                 resp_buf = ''3,s,a,deep fried,c,j,d,r,k,l,m,2021-05-05'' @ [NL]\<rparr>) \<and>
   (\<exists>ls. ''3,s,a,deep fried,c,j,d,r,k,l,m,2021-05-05'' @ [NL] = concat ls \<and> 1 = length ls \<and>
      (\<forall>l \<in> set ls. \<exists>v. csv_get_column l 12 64 = Some v \<and> strcasecmp v ''2021-05-05'' = 0)) \<and>
   ''1999-01-01'' \<noteq> [] \<and>
   search_by_title_and_update hash_string_djb2 (Suc (Suc (Suc 0))) demo_env (Some ''deep'')
       (Some ''1999-01-01'') (Some 2048) =
     Some (Inr \<lparr>sw_found = 0, resp_buf = []\<rparr>) \<and>
   ensure_index hash_string_djb2 demo_env = Inr demo_built \<and>
   csv_file demo_env = Some demo_csv \<and>
   sw_found \<lparr>sw_found = 0, resp_buf = []\<rparr> = 0"
proof -
  let ?e = "\<lparr>key = ''deep fried'', csv_offset = 152, next_entry = - 1\<rparr>"
  let ?st = "\<lparr>sw_found = 0, resp_buf = []\<rparr>"
  let ?r = "\<lparr>sw_found = 1, resp_buf = ''3,s,a,deep fried,c,j,d,r,k,l,m,2021-05-05'' @ [NL]\<rparr>"
  have u: "''2021-05-05'' \<noteq> []" and u': "''1999-01-01'' \<noteq> []" by simp_all
  have a: "sw_visit ''deep'' (Some ''2021-05-05'') demo_csv 2048 ?e ?st \<noteq> (?st, False)"
    by (simp add: run_defs demo_csv_def)
  have b: "search_by_title_and_update hash_string_djb2 (Suc (Suc (Suc 0))) demo_env (Some ''deep'')
      (Some ''2021-05-05'') (Some 2048) = Some (Inr ?r)"
    by (simp add: run_defs demo_env_def demo_csv_def)
  have c: "search_by_title_and_update hash_string_djb2 (Suc (Suc (Suc 0))) demo_env (Some ''deep'')
      (Some ''1999-01-01'') (Some 2048) = Some (Inr ?st)"
    by (simp add: run_defs demo_env_def demo_csv_def)
  have d: "ensure_index hash_string_djb2 demo_env = Inr demo_built"
    using demo_built_eq by (simp add: ensure_index_def demo_env_def)
  have e: "csv_file demo_env = Some demo_csv" by (simp add: demo_env_def)
  have f: "\<forall>off e' line. ix_entry demo_built off = Some e' \<and>
      fgets_at MAX_LINE demo_csv (csv_offset e') = Some line \<longrightarrow>
      \<not> (\<exists>v. csv_get_column (cstr line) 12 64 = Some v \<and> strcasecmp v ''1999-01-01'' = 0)"
    by (auto simp: run_defs demo_built_def demo_csv_def split: if_splits)
  note t = secondary_filter_gates_acceptance [OF u, where t = "''deep''" and csv = demo_csv
      and sz = 2048 and e = ?e and st = ?st and hs = hash_string_djb2
      and fuel = "Suc (Suc (Suc 0))" and env = demo_env and r = ?r]
  note t' = secondary_filter_gates_acceptance [OF u', where t = "''deep''" and sz = 2048
      and hs = hash_string_djb2 and fuel = "Suc (Suc (Suc 0))" and env = demo_env and r = ?st
      and f = demo_built and csv' = demo_csv]
  from t a have 1: "\<exists>line v. fgets_at MAX_LINE demo_csv 152 = Some line \<and>
      csv_get_column (cstr line) 12 64 = Some v \<and> strcasecmp v ''2021-05-05'' = 0"
    by simp
  from t b have 2: "\<exists>ls. ''3,s,a,deep fried,c,j,d,r,k,l,m,2021-05-05'' @ [NL] = concat ls \<and>
      1 = length ls \<and>
      (\<forall>l \<in> set ls. \<exists>v. csv_get_column l 12 64 = Some v \<and> strcasecmp v ''2021-05-05'' = 0)"
    by simp
  from t' c d e f have 3: "sw_found ?st = 0" by blast
  from u u' a b c d e 1 2 3 show ?thesis by blast
qed


section \<open>The response buffer\<close>

lemma sw_walk_no_room:
  assumes "cur \<noteq> - 1" "sw_found st < MAX_RESULTS" "ix_entry f cur = Some e"
    "ci_strcasestr (Some (key e)) (Some t) \<noteq> None"
    "fgets_at MAX_LINE csv (csv_offset e) = Some line" "pass_update u (cstr line)"
    "\<not> length (resp_buf st) + length (cstr line) + 1 < sz"
  shows "sw_walk (Suc fuel) t u f csv sz st cur = Some (st, True)"
  using assms by (simp add: sw_visit_def sw_on_match_def Let_def)

lemma sw_buckets_finish:
  assumes "sw_found st < MAX_RESULTS" "0 \<le> int h + off" "int h + off < nb"
    "ix_bucket f (bucket_offset_of (int h + off)) = Some b"
    "sw_walk fuel t u f csv sz st b = Some (st', True)"
  shows "sw_buckets fuel t u f csv sz nb h (off # offs) st = Some st'"
  using assms by (simp add: Let_def)

lemma sw_visit_appends:
  assumes "ci_strcasestr (Some (key e)) (Some t) \<noteq> None"
    "fgets_at MAX_LINE csv (csv_offset e) = Some line" "pass_update u (cstr line)"
    "length (resp_buf st) + length (cstr line) + 1 < sz"
  shows "sw_visit t u csv sz e st =
     (\<lparr>sw_found = sw_found st + 1, resp_buf = resp_buf st @ cstr line\<rparr>, False)"
  using assms by (simp add: sw_visit_def sw_on_match_def Let_def)

lemma sw_visit_changes_by_append:
  assumes "sw_visit t u csv sz e st = (st', fin)" "st' \<noteq> st"
  shows "\<not> fin \<and>
     (\<exists>line. ci_strcasestr (Some (key e)) (Some t) \<noteq> None \<and>
        fgets_at MAX_LINE csv (csv_offset e) = Some line \<and> pass_update u (cstr line) \<and>
        length (resp_buf st) + length (cstr line) + 1 < sz \<and>
        st' = \<lparr>sw_found = sw_found st + 1, resp_buf = resp_buf st @ cstr line\<rparr>)"
  using assms
  by (auto simp: sw_visit_def sw_on_match_def Let_def split: if_splits option.splits)

text \<open>
  C9: the worker's search appends the accepted lines to the caller's buffer of \<open>sz\<close>
  bytes (2048 for the payload of a response) and returns the number of lines appended:
  the buffer holds, one after the other, as many accepted lines as the count says, each
  of them the line of an entry of the index whose key matched and which passed the
  filter, and the body of the chain loop changes the state only by appending one such
  line and adding one to the count. The string left fits the buffer together with its
  terminating NUL. When an accepted line would not fit, the chain loop leaves at once
  with the state it had, and the bucket loop returns that state, whatever else the
  window holds.
\<close>

theorem response_buffer_never_overrun:
  "(search_by_title_and_update hs fuel env (Some t) u (Some sz) = Some (Inr r) \<and> 1 \<le> sz \<longrightarrow>
      length (resp_buf r) + 1 \<le> sz \<and> sw_found r \<le> MAX_RESULTS \<and>
      (sw_found r \<noteq> 0 \<longrightarrow> length (resp_buf r) + 1 < sz) \<and>
      (\<exists>g c ls. ensure_index hs env = Inr g \<and> csv_file env = Some c \<and>
         resp_buf r = concat ls \<and> sw_found r = length ls \<and>
         (\<forall>l \<in> set ls. line_accepted g c t u l \<and> length l + 1 < sz))) \<and>
   (ci_strcasestr (Some (key e)) (Some t) \<noteq> None \<and>
    fgets_at MAX_LINE csv (csv_offset e) = Some line \<and> pass_update u (cstr line) \<and>
    length (resp_buf st) + length (cstr line) + 1 < sz \<longrightarrow>
      sw_visit t u csv sz e st =
        (\<lparr>sw_found = sw_found st + 1, resp_buf = resp_buf st @ cstr line\<rparr>, False)) \<and>
   (sw_visit t u csv sz e st = (st', fin) \<and> st' \<noteq> st \<longrightarrow>
      \<not> fin \<and>
      (\<exists>line'. ci_strcasestr (Some (key e)) (Some t) \<noteq> None \<and>
         fgets_at MAX_LINE csv (csv_offset e) = Some line' \<and> pass_update u (cstr line') \<and>
         length (resp_buf st) + length (cstr line') + 1 < sz \<and>
         st' = \<lparr>sw_found = sw_found st + 1, resp_buf = resp_buf st @ cstr line'\<rparr>)) \<and>
   (cur \<noteq> - 1 \<and> sw_found st < MAX_RESULTS \<and> ix_entry f cur = Some e \<and>
    ci_strcasestr (Some (key e)) (Some t) \<noteq> None \<and>
    fgets_at MAX_LINE csv (csv_offset e) = Some line \<and> pass_update u (cstr line) \<and>
    \<not> length (resp_buf st) + length (cstr line) + 1 < sz \<longrightarrow>
      sw_walk (Suc fuel) t u f csv sz st cur = Some (st, True)) \<and>
   (sw_found st < MAX_RESULTS \<and> 0 \<le> int h + off \<and> int h + off < nb \<and>
    ix_bucket f (bucket_offset_of (int h + off)) = Some b \<and>
    sw_walk fuel t u f csv sz st b = Some (st', True) \<longrightarrow>
      sw_buckets fuel t u f csv sz nb h (off # offs) st = Some st')"
proof (intro conjI impI)
  assume a: "search_by_title_and_update hs fuel env (Some t) u (Some sz) = Some (Inr r) \<and> 1 \<le> sz"
  then have s: "search_by_title_and_update hs fuel env (Some t) u (Some sz) = Some (Inr r)"
    and sz: "1 \<le> sz" by simp_all
  from search_collected [OF s] obtain g c where gc: "ensure_index hs env = Inr g"
    "csv_file env = Some c" and c: "collected g c t u sz r" by blast
  then obtain ls where ls: "resp_buf r = concat ls" "sw_found r = length ls"
    "\<forall>l \<in> set ls. line_accepted g c t u l \<and> length l + 1 < sz"
    unfolding collected_def by blast
  show "length (resp_buf r) + 1 \<le> sz"
  proof (cases "sw_found r = 0")
    case True
    with ls have "resp_buf r = []" by simp
    with sz show ?thesis by simp
  next
    case False
    with c show ?thesis unfolding collected_def by simp
  qed
  show "sw_found r \<le> MAX_RESULTS" using c unfolding collected_def by simp
  show "\<exists>g c ls. ensure_index hs env = Inr g \<and> csv_file env = Some c \<and>
      resp_buf r = concat ls \<and> sw_found r = length ls \<and>
      (\<forall>l \<in> set ls. line_accepted g c t u l \<and> length l + 1 < sz)"
    using gc ls by blast
  show "length (resp_buf r) + 1 < sz" if "sw_found r \<noteq> 0"
    using that c unfolding collected_def by simp
next
  assume "ci_strcasestr (Some (key e)) (Some t) \<noteq> None \<and>
    fgets_at MAX_LINE csv (csv_offset e) = Some line \<and> pass_update u (cstr line) \<and>
    length (resp_buf st) + length (cstr line) + 1 < sz"
  then show "sw_visit t u csv sz e st =
      (\<lparr>sw_found = sw_found st + 1, resp_buf = resp_buf st @ cstr line\<rparr>, False)"
    using sw_visit_appends by blast
next
  assume a: "sw_visit t u csv sz e st = (st', fin) \<and> st' \<noteq> st"
  from sw_visit_changes_by_append [of t u csv sz e st st' fin] a
  show "\<not> fin" by blast
  from sw_visit_changes_by_append [of t u csv sz e st st' fin] a
  show "\<exists>line'. ci_strcasestr (Some (key e)) (Some t) \<noteq> None \<and>
      fgets_at MAX_LINE csv (csv_offset e) = Some line' \<and> pass_update u (cstr line') \<and>
      length (resp_buf st) + length (cstr line') + 1 < sz \<and>
      st' = \<lparr>sw_found = sw_found st + 1, resp_buf = resp_buf st @ cstr line'\<rparr>"
    by blast
next
  assume "cur \<noteq> - 1 \<and> sw_found st < MAX_RESULTS \<and> ix_entry f cur = Some e \<and>
    ci_strcasestr (Some (key e)) (Some t) \<noteq> None \<and>
    fgets_at MAX_LINE csv (csv_offset e) = Some line \<and> pass_update u (cstr line) \<and>
    \<not> length (resp_buf st) + length (cstr line) + 1 < sz"
  then show "sw_walk (Suc fuel) t u f csv sz st cur = Some (st, True)"
    using sw_walk_no_room by blast
next
  assume "sw_found st < MAX_RESULTS \<and> 0 \<le> int h + off \<and> int h + off < nb \<and>
    ix_bucket f (bucket_offset_of (int h + off)) = Some b \<and>
    sw_walk fuel t u f csv sz st b = Some (st', True)"
  then show "sw_buckets fuel t u f csv sz nb h (off # offs) st = Some st'"
    using sw_buckets_finish by blast
qed

theorem response_buffer_never_overrun_witness:
  "search_by_title_and_update hash_string_djb2 (Suc (Suc (Suc 0))) demo_env (Some ''deep'') None
       (Some 2048) =
     Some (Inr \<lparr>sw_found = 2,
                 resp_buf = ''3,s,a,deep fried,c,j,d,r,k,l,m,2021-05-05'' @ [NL] @
                            ''1,s,a,deep sleep,c,j,d,r,k,l,m,2020-01-01'' @ [NL]\<rparr>) \<and>
   (1::nat) \<le> 2048 \<and>
   length (''3,s,a,deep fried,c,j,d,r,k,l,m,2021-05-05'' @ [NL] @
           ''1,s,a,deep sleep,c,j,d,r,k,l,m,2020-01-01'' @ [NL]) + 1 \<le> (2048::nat) \<and>
   search_by_title_and_update hash_string_djb2 (Suc (Suc (Suc 0))) demo_env (Some ''deep'') None
       (Some 64) =
     Some (Inr \<lparr>sw_found = 1,
                 resp_buf = ''3,s,a,deep fried,c,j,d,r,k,l,m,2021-05-05'' @ [NL]\<rparr>) \<and>
   ix_entry demo_built 8024 =
     Some \<lparr>key = ''deep sleep'', csv_offset = 62, next_entry = - 1\<rparr> \<and>
   ci_strcasestr (Some ''deep sleep'') (Some ''deep'') \<noteq> None \<and>
   fgets_at MAX_LINE demo_csv 62 = Some (''1,s,a,deep sleep,c,j,d,r,k,l,m,2020-01-01'' @ [NL]) \<and>
   pass_update None (cstr (''1,s,a,deep sleep,c,j,d,r,k,l,m,2020-01-01'' @ [NL])) \<and>
   \<not> length (''3,s,a,deep fried,c,j,d,r,k,l,m,2021-05-05'' @ [NL]) +
       length (cstr (''1,s,a,deep sleep,c,j,d,r,k,l,m,2020-01-01'' @ [NL])) + 1 < (64::nat) \<and>
   sw_walk (Suc (Suc (Suc (Suc 0)))) ''deep'' None demo_built demo_csv 64
       \<lparr>sw_found = 1, resp_buf = ''3,s,a,deep fried,c,j,d,r,k,l,m,2021-05-05'' @ [NL]\<rparr> 8024 =
     Some (\<lparr>sw_found = 1, resp_buf = ''3,s,a,deep fried,c,j,d,r,k,l,m,2021-05-05'' @ [NL]\<rparr>,
           True) \<and>
   ix_bucket demo_built (bucket_offset_of (int 35 + 1)) = Some 8024 \<and>
   sw_buckets (Suc (Suc (Suc (Suc 0)))) ''deep'' None demo_built demo_csv 64 1000 35 [1, 2]
       \<lparr>sw_found = 1, resp_buf = ''3,s,a,deep fried,c,j,d,r,k,l,m,2021-05-05'' @ [NL]\<rparr> =
     Some \<lparr>sw_found = 1, resp_buf = ''3,s,a,deep fried,c,j,d,r,k,l,m,2021-05-05'' @ [NL]\<rparr> \<and>
   (\<exists>g c ls. ensure_index hash_string_djb2 demo_env = Inr g \<and> csv_file demo_env = Some c \<and>
      ''3,s,a,deep fried,c,j,d,r,k,l,m,2021-05-05'' @ [NL] @
      ''1,s,a,deep sleep,c,j,d,r,k,l,m,2020-01-01'' @ [NL] = concat ls \<and>
      2 = length ls \<and>
      (\<forall>l \<in> set ls. line_accepted g c ''deep'' None l \<and> length l + 1 < 2048)) \<and>
   length (''3,s,a,deep fried,c,j,d,r,k,l,m,2021-05-05'' @ [NL]) +
       length (cstr (''1,s,a,deep sleep,c,j,d,r,k,l,m,2020-01-01'' @ [NL])) + 1 < (2048::nat) \<and>
   sw_visit ''deep'' None demo_csv 2048
       \<lparr>key = ''deep sleep'', csv_offset = 62, next_entry = - 1\<rparr>
       \<lparr>sw_found = 1, resp_buf = ''3,s,a,deep fried,c,j,d,r,k,l,m,2021-05-05'' @ [NL]\<rparr> =
     (\<lparr>sw_found = 2,
        resp_buf = ''3,s,a,deep fried,c,j,d,r,k,l,m,2021-05-05'' @ [NL] @
                   cstr (''1,s,a,deep sleep,c,j,d,r,k,l,m,2020-01-01'' @ [NL])\<rparr>, False) \<and>
   (\<exists>line'. fgets_at MAX_LINE demo_csv 62 = Some line' \<and>
      pass_update None (cstr line') \<and>
      \<lparr>sw_found = 2,
        resp_buf = ''3,s,a,deep fried,c,j,d,r,k,l,m,2021-05-05'' @ [NL] @
                   cstr (''1,s,a,deep sleep,c,j,d,r,k,l,m,2020-01-01'' @ [NL])\<rparr> =
      \<lparr>sw_found = 1 + 1,
        resp_buf = ''3,s,a,deep fried,c,j,d,r,k,l,m,2021-05-05'' @ [NL] @ cstr line'\<rparr>)"
proof -
  let ?l1 = "''1,s,a,deep sleep,c,j,d,r,k,l,m,2020-01-01'' @ [NL]"
  let ?l3 = "''3,s,a,deep fried,c,j,d,r,k,l,m,2021-05-05'' @ [NL]"
  let ?e = "\<lparr>key = ''deep sleep'', csv_offset = 62, next_entry = - 1\<rparr>"
  let ?st = "\<lparr>sw_found = 1, resp_buf = ?l3\<rparr>"
  let ?r = "\<lparr>sw_found = 2, resp_buf = ?l3 @ ?l1\<rparr>"
  let ?fuel = "Suc (Suc (Suc 0))"
  have a: "search_by_title_and_update hash_string_djb2 ?fuel demo_env (Some ''deep'') None
      (Some 2048) = Some (Inr ?r)"
    by (simp add: run_defs demo_env_def demo_csv_def)
  have a': "search_by_title_and_update hash_string_djb2 ?fuel demo_env (Some ''deep'') None
      (Some 64) = Some (Inr ?st)"
    by (simp add: run_defs demo_env_def demo_csv_def)
  have b: "(8024::int) \<noteq> - 1 \<and> sw_found ?st < MAX_RESULTS \<and> ix_entry demo_built 8024 = Some ?e \<and>
      ci_strcasestr (Some (key ?e)) (Some ''deep'') \<noteq> None \<and>
      fgets_at MAX_LINE demo_csv (csv_offset ?e) = Some ?l1 \<and> pass_update None (cstr ?l1) \<and>
      \<not> length (resp_buf ?st) + length (cstr ?l1) + 1 < (64::nat)"
    by (simp add: run_defs demo_built_def demo_csv_def)
  have c: "ix_bucket demo_built (bucket_offset_of (int 35 + 1)) = Some 8024"
    by (simp add: demo_built_def bucket_offset_of_def sizeof_IndexHeader_def sizeof_BucketDisk_def)
  note t = response_buffer_never_overrun [where hs = hash_string_djb2 and fuel = ?fuel
      and env = demo_env and t = "''deep''" and u = None and sz = 2048 and r = ?r]
  note t2 = response_buffer_never_overrun [where fuel = ?fuel and t = "''deep''" and u = None
      and sz = 64 and cur = 8024 and st = ?st and f = demo_built and e = ?e and csv = demo_csv
      and line = ?l1]
  note t3 = response_buffer_never_overrun [where fuel = "Suc ?fuel" and t = "''deep''" and u = None
      and sz = 64 and st = ?st and f = demo_built and csv = demo_csv
      and h = 35 and off = 1 and nb = 1000 and b = 8024 and st' = ?st and offs = "[2]"]
  from t a have 1: "length (resp_buf ?r) + 1 \<le> (2048::nat)" by simp
  from t2 b have w2: "sw_walk (Suc ?fuel) ''deep'' None demo_built demo_csv 64 ?st 8024 =
      Some (?st, True)" by blast
  from t3 c w2 have 3: "sw_buckets (Suc ?fuel) ''deep'' None demo_built demo_csv 64 1000 35 [1, 2] ?st
      = Some ?st" by (simp add: MAX_RESULTS_def)
  from t a have 4: "\<exists>g c ls. ensure_index hash_string_djb2 demo_env = Inr g \<and>
      csv_file demo_env = Some c \<and> resp_buf ?r = concat ls \<and> sw_found ?r = length ls \<and>
      (\<forall>l \<in> set ls. line_accepted g c ''deep'' None l \<and> length l + 1 < 2048)"
    by simp
  have d: "length (resp_buf ?st) + length (cstr ?l1) + 1 < (2048::nat)"
    by (simp add: cstr_def)
  note t4 = response_buffer_never_overrun [where t = "''deep''" and u = None and sz = 2048
      and st = ?st and e = ?e and csv = demo_csv and line = ?l1
      and st' = "\<lparr>sw_found = 2, resp_buf = ?l3 @ cstr ?l1\<rparr>" and fin = False]
  from t4 b d have 5: "sw_visit ''deep'' None demo_csv 2048 ?e ?st =
      (\<lparr>sw_found = 2, resp_buf = ?l3 @ cstr ?l1\<rparr>, False)"
    by simp
  have ne: "\<lparr>sw_found = 2, resp_buf = ?l3 @ cstr ?l1\<rparr> \<noteq> ?st" by simp
  from t4 5 ne have "\<exists>line'. ci_strcasestr (Some (key ?e)) (Some ''deep'') \<noteq> None \<and>
      fgets_at MAX_LINE demo_csv (csv_offset ?e) = Some line' \<and> pass_update None (cstr line') \<and>
      length (resp_buf ?st) + length (cstr line') + 1 < 2048 \<and>
      \<lparr>sw_found = 2, resp_buf = ?l3 @ cstr ?l1\<rparr> =
      \<lparr>sw_found = sw_found ?st + 1, resp_buf = resp_buf ?st @ cstr line'\<rparr>"
    by blast
  then obtain line' where l': "fgets_at MAX_LINE demo_csv (csv_offset ?e) = Some line'"
    "pass_update None (cstr line')"
    "\<lparr>sw_found = 2, resp_buf = ?l3 @ cstr ?l1\<rparr> =
     \<lparr>sw_found = sw_found ?st + 1, resp_buf = resp_buf ?st @ cstr line'\<rparr>"
    by blast
  have 6: "\<exists>line'. fgets_at MAX_LINE demo_csv 62 = Some line' \<and>
      pass_update None (cstr line') \<and>
      \<lparr>sw_found = 2, resp_buf = ?l3 @ cstr ?l1\<rparr> =
      \<lparr>sw_found = 1 + 1, resp_buf = ?l3 @ cstr line'\<rparr>"
  proof (intro exI [of _ line'] conjI)
    from l'(1) show "fgets_at MAX_LINE demo_csv 62 = Some line'" by simp
    from l'(2) show "pass_update None (cstr line')" .
    from l'(3) show "\<lparr>sw_found = 2, resp_buf = ?l3 @ cstr ?l1\<rparr> =
      \<lparr>sw_found = 1 + 1, resp_buf = ?l3 @ cstr line'\<rparr>" by simp
  qed
  from a a' b c 1 w2 3 have old: "search_by_title_and_update hash_string_djb2 ?fuel demo_env (Some ''deep'') None
       (Some 2048) = Some (Inr ?r) \<and>
   (1::nat) \<le> 2048 \<and>
   length (?l3 @ ?l1) + 1 \<le> (2048::nat) \<and>
   search_by_title_and_update hash_string_djb2 ?fuel demo_env (Some ''deep'') None
       (Some 64) = Some (Inr ?st) \<and>
   ix_entry demo_built 8024 = Some ?e \<and>
   ci_strcasestr (Some ''deep sleep'') (Some ''deep'') \<noteq> None \<and>
   fgets_at MAX_LINE demo_csv 62 = Some ?l1 \<and>
   pass_update None (cstr ?l1) \<and>
   \<not> length ?l3 + length (cstr ?l1) + 1 < (64::nat) \<and>
   sw_walk (Suc ?fuel) ''deep'' None demo_built demo_csv 64 ?st 8024 = Some (?st, True) \<and>
   ix_bucket demo_built (bucket_offset_of (int 35 + 1)) = Some 8024 \<and>
   sw_buckets (Suc ?fuel) ''deep'' None demo_built demo_csv 64 1000 35 [1, 2] ?st = Some ?st"
    by simp
  from 4 have w4: "\<exists>g c ls. ensure_index hash_string_djb2 demo_env = Inr g \<and>
      csv_file demo_env = Some c \<and> ?l3 @ ?l1 = concat ls \<and> 2 = length ls \<and>
      (\<forall>l \<in> set ls. line_accepted g c ''deep'' None l \<and> length l + 1 < 2048)"
    by simp
  from d have wd: "length ?l3 + length (cstr ?l1) + 1 < (2048::nat)" by simp
  from old w4 wd 5 6 show ?thesis by simp
qed


section \<open>When the build fails\<close>

lemma fgets_None_iff: "fgets n s = None \<longleftrightarrow> s = []"
  by (simp add: fgets_def)

lemma fgets_Nil: "fgets n [] = None"
  by (simp add: fgets_def)

lemma build_status_fails_iff:
  "build_status (build_index hs env) = - 1 \<longleftrightarrow>
     (csv_file env = None \<or> \<not> idx_creatable env \<or> \<not> header_write_ok env \<or>
      (\<exists>i < N_BUCKETS. \<not> bucket_write_ok env i) \<or> csv_file env = Some [])"
  by (auto simp: build_index_unfold build_status_def fgets_None_iff fgets_Nil split: option.splits)

lemma build_status_line_io:
  "build_status (build_index hs (env\<lparr>line_io_at := io\<rparr>)) = build_status (build_index hs env)"
  by (auto simp: build_index_unfold build_status_def split: option.splits)

lemma insert_line_no_key: "line_key line = None \<Longrightarrow> insert_line hs lio f pos line = f"
  by (simp add: insert_line_def)

lemma insert_line_skipped:
  "\<not> seek_bucket_ok lio \<or> \<not> seek_end_ok lio \<or> \<not> write_entry_ok lio \<Longrightarrow>
   insert_line hs lio f pos line = f"
  by (auto simp: insert_line_def Let_def split: option.splits)

lemma insert_line_unlinked:
  "\<not> seek_bucket_again_ok lio \<or> \<not> write_bucket_ok lio \<Longrightarrow>
   ix_bucket (insert_line hs lio f pos line) = ix_bucket f"
  by (auto simp: insert_line_def Let_def split: option.splits)

lemma insert_line_read_failed:
  "line_key line = Some token \<Longrightarrow> \<not> read_bucket_ok lio \<Longrightarrow> seek_bucket_ok lio \<Longrightarrow>
   seek_end_ok lio \<Longrightarrow> write_entry_ok lio \<Longrightarrow>
   ix_entry (insert_line hs lio f pos line) (ix_size f) =
     Some \<lparr>key = take (KEY_SIZE - 1) (limpiar_texto token), csv_offset = pos, next_entry = - 1\<rparr>"
  by (simp add: insert_line_def Let_def)

lemma insert_line_appended_only:
  assumes "line_key line = Some token" "seek_bucket_ok lio" "seek_end_ok lio" "write_entry_ok lio"
    "\<not> seek_bucket_again_ok lio \<or> \<not> write_bucket_ok lio"
  shows "insert_line hs lio f pos line =
     f\<lparr>ix_entry := (ix_entry f)(ix_size f \<mapsto>
          \<lparr>key = take (KEY_SIZE - 1) (limpiar_texto token), csv_offset = pos,
           next_entry =
             (if read_bucket_ok lio
              then (case ix_bucket f
                      (bucket_offset_of (int (hs (limpiar_texto token) mod N_BUCKETS))) of
                      None \<Rightarrow> - 1 | Some v \<Rightarrow> v)
              else - 1)\<rparr>),
        ix_size := ix_size f + sizeof_EntryDisk\<rparr>"
  using assms by (auto simp: insert_line_def Let_def)

lemma insert_line_linked:
  assumes "line_key line = Some token" "seek_bucket_ok lio" "seek_end_ok lio" "write_entry_ok lio"
    "seek_bucket_again_ok lio" "write_bucket_ok lio"
  shows "insert_line hs lio f pos line =
     f\<lparr>ix_entry := (ix_entry f)(ix_size f \<mapsto>
          \<lparr>key = take (KEY_SIZE - 1) (limpiar_texto token), csv_offset = pos,
           next_entry =
             (if read_bucket_ok lio
              then (case ix_bucket f
                      (bucket_offset_of (int (hs (limpiar_texto token) mod N_BUCKETS))) of
                      None \<Rightarrow> - 1 | Some v \<Rightarrow> v)
              else - 1)\<rparr>),
        ix_size := ix_size f + sizeof_EntryDisk,
        ix_bucket := (ix_bucket f)
          (bucket_offset_of (int (hs (limpiar_texto token) mod N_BUCKETS)) \<mapsto> ix_size f)\<rparr>"
  using assms by (simp add: insert_line_def Let_def)

text \<open>
  C8, as the code has it: \<open>build_index\<close> fails exactly when the record store cannot be
  opened, the index file cannot be created, its header or one of its empty bucket slots
  cannot be written, or the record store yields no first line; which calls fail while a
  data line is processed never changes the status. A line without a key column, or one
  whose bucket seek, end seek or entry write fails, leaves the index as it was; when the
  second bucket seek or the bucket write fails the entry stays appended at the end of
  the file and the bucket table is left as it was; when the bucket read fails the line
  is not skipped: its entry is written with an empty rest of chain and, the later calls
  succeeding, becomes the head of its bucket.
\<close>

theorem build_fails_only_before_line_loop:
  "(build_status (build_index hs env) = - 1 \<longleftrightarrow>
      (csv_file env = None \<or> \<not> idx_creatable env \<or> \<not> header_write_ok env \<or>
       (\<exists>i < N_BUCKETS. \<not> bucket_write_ok env i) \<or> csv_file env = Some [])) \<and>
   (build_status (build_index hs env) \<noteq> - 1 \<longrightarrow> build_status (build_index hs env) = 0) \<and>
   build_status (build_index hs (env\<lparr>line_io_at := io\<rparr>)) = build_status (build_index hs env) \<and>
   (line_key line = None \<longrightarrow> insert_line hs lio f pos line = f) \<and>
   (\<not> seek_bucket_ok lio \<or> \<not> seek_end_ok lio \<or> \<not> write_entry_ok lio \<longrightarrow>
      insert_line hs lio f pos line = f) \<and>
   (\<not> seek_bucket_again_ok lio \<or> \<not> write_bucket_ok lio \<longrightarrow>
      ix_bucket (insert_line hs lio f pos line) = ix_bucket f) \<and>
   (line_key line = Some token \<and> \<not> read_bucket_ok lio \<and> seek_bucket_ok lio \<and>
    seek_end_ok lio \<and> write_entry_ok lio \<longrightarrow>
      ix_entry (insert_line hs lio f pos line) (ix_size f) =
        Some \<lparr>key = take (KEY_SIZE - 1) (limpiar_texto token), csv_offset = pos,
              next_entry = - 1\<rparr>) \<and>
   (line_key line = Some token \<and> seek_bucket_ok lio \<and> seek_end_ok lio \<and> write_entry_ok lio \<and>
    (\<not> seek_bucket_again_ok lio \<or> \<not> write_bucket_ok lio) \<longrightarrow>
      insert_line hs lio f pos line =
        f\<lparr>ix_entry := (ix_entry f)(ix_size f \<mapsto>
             \<lparr>key = take (KEY_SIZE - 1) (limpiar_texto token), csv_offset = pos,
              next_entry =
                (if read_bucket_ok lio
                 then (case ix_bucket f
                         (bucket_offset_of (int (hs (limpiar_texto token) mod N_BUCKETS))) of
                         None \<Rightarrow> - 1 | Some v \<Rightarrow> v)
                 else - 1)\<rparr>),
           ix_size := ix_size f + sizeof_EntryDisk\<rparr>) \<and>
   (line_key line = Some token \<and> seek_bucket_ok lio \<and> seek_end_ok lio \<and> write_entry_ok lio \<and>
    seek_bucket_again_ok lio \<and> write_bucket_ok lio \<longrightarrow>
      insert_line hs lio f pos line =
        f\<lparr>ix_entry := (ix_entry f)(ix_size f \<mapsto>
             \<lparr>key = take (KEY_SIZE - 1) (limpiar_texto token), csv_offset = pos,
              next_entry =
                (if read_bucket_ok lio
                 then (case ix_bucket f
                         (bucket_offset_of (int (hs (limpiar_texto token) mod N_BUCKETS))) of
                         None \<Rightarrow> - 1 | Some v \<Rightarrow> v)
                 else - 1)\<rparr>),
           ix_size := ix_size f + sizeof_EntryDisk,
           ix_bucket := (ix_bucket f)
             (bucket_offset_of (int (hs (limpiar_texto token) mod N_BUCKETS)) \<mapsto> ix_size f)\<rparr>)"
proof (intro conjI impI)
  show "build_status (build_index hs env) = - 1 \<longleftrightarrow>
      (csv_file env = None \<or> \<not> idx_creatable env \<or> \<not> header_write_ok env \<or>
       (\<exists>i < N_BUCKETS. \<not> bucket_write_ok env i) \<or> csv_file env = Some [])"
    by (rule build_status_fails_iff)
  show "build_status (build_index hs (env\<lparr>line_io_at := io\<rparr>)) = build_status (build_index hs env)"
    by (rule build_status_line_io)
next
  assume "build_status (build_index hs env) \<noteq> - 1"
  then show "build_status (build_index hs env) = 0"
    by (simp add: build_status_def split: sum.splits)
next
  assume "line_key line = None"
  then show "insert_line hs lio f pos line = f" by (rule insert_line_no_key)
next
  assume "\<not> seek_bucket_ok lio \<or> \<not> seek_end_ok lio \<or> \<not> write_entry_ok lio"
  then show "insert_line hs lio f pos line = f" by (rule insert_line_skipped)
next
  assume "\<not> seek_bucket_again_ok lio \<or> \<not> write_bucket_ok lio"
  then show "ix_bucket (insert_line hs lio f pos line) = ix_bucket f" by (rule insert_line_unlinked)
next
  assume "line_key line = Some token \<and> \<not> read_bucket_ok lio \<and> seek_bucket_ok lio \<and>
    seek_end_ok lio \<and> write_entry_ok lio"
  then show "ix_entry (insert_line hs lio f pos line) (ix_size f) =
      Some \<lparr>key = take (KEY_SIZE - 1) (limpiar_texto token), csv_offset = pos, next_entry = - 1\<rparr>"
    using insert_line_read_failed by blast
next
  assume "line_key line = Some token \<and> seek_bucket_ok lio \<and> seek_end_ok lio \<and>
    write_entry_ok lio \<and> (\<not> seek_bucket_again_ok lio \<or> \<not> write_bucket_ok lio)"
  then show "insert_line hs lio f pos line =
      f\<lparr>ix_entry := (ix_entry f)(ix_size f \<mapsto>
           \<lparr>key = take (KEY_SIZE - 1) (limpiar_texto token), csv_offset = pos,
            next_entry =
              (if read_bucket_ok lio
               then (case ix_bucket f
                       (bucket_offset_of (int (hs (limpiar_texto token) mod N_BUCKETS))) of
                       None \<Rightarrow> - 1 | Some v \<Rightarrow> v)
               else - 1)\<rparr>),
         ix_size := ix_size f + sizeof_EntryDisk\<rparr>"
    using insert_line_appended_only by blast
next
  assume "line_key line = Some token \<and> seek_bucket_ok lio \<and> seek_end_ok lio \<and>
    write_entry_ok lio \<and> seek_bucket_again_ok lio \<and> write_bucket_ok lio"
  then show "insert_line hs lio f pos line =
      f\<lparr>ix_entry := (ix_entry f)(ix_size f \<mapsto>
           \<lparr>key = take (KEY_SIZE - 1) (limpiar_texto token), csv_offset = pos,
            next_entry =
              (if read_bucket_ok lio
               then (case ix_bucket f
                       (bucket_offset_of (int (hs (limpiar_texto token) mod N_BUCKETS))) of
                       None \<Rightarrow> - 1 | Some v \<Rightarrow> v)
               else - 1)\<rparr>),
         ix_size := ix_size f + sizeof_EntryDisk,
         ix_bucket := (ix_bucket f)
           (bucket_offset_of (int (hs (limpiar_texto token) mod N_BUCKETS)) \<mapsto> ix_size f)\<rparr>"
    using insert_line_linked by blast
qed

text \<open>
  The claim as stated fails: with every bucket read failing, the build still inserts
  all three records of the small record store.
\<close>

theorem read_failure_does_not_skip_counterexample:
  "build_index hash_string_djb2
     (demo_env\<lparr>line_io_at := (\<lambda>pos. all_ok\<lparr>read_bucket_ok := False\<rparr>)\<rparr>) = Inr demo_built"
  by (simp add: run_defs demo_env_def demo_csv_def demo_built_def)


theorem build_fails_only_before_line_loop_witness:
  "csv_file (demo_env\<lparr>csv_file := None\<rparr>) = None \<and>
   build_status (build_index hash_string_djb2 (demo_env\<lparr>csv_file := None\<rparr>)) = - 1 \<and>
   build_status (build_index hash_string_djb2 demo_env) \<noteq> - 1 \<and>
   build_status (build_index hash_string_djb2 demo_env) = 0 \<and>
   build_status (build_index hash_string_djb2
      (demo_env\<lparr>line_io_at := (\<lambda>pos. all_ok\<lparr>write_entry_ok := False\<rparr>)\<rparr>)) = 0 \<and>
   line_key ''9,s'' = None \<and>
   insert_line hash_string_djb2 all_ok demo_built 200 ''9,s'' = demo_built \<and>
   \<not> seek_end_ok (all_ok\<lparr>seek_end_ok := False\<rparr>) \<and>
   insert_line hash_string_djb2 (all_ok\<lparr>seek_end_ok := False\<rparr>) demo_built 200
     ''9,s,a,deep sleep,z'' = demo_built \<and>
   \<not> write_bucket_ok (all_ok\<lparr>write_bucket_ok := False\<rparr>) \<and>
   ix_bucket (insert_line hash_string_djb2 (all_ok\<lparr>write_bucket_ok := False\<rparr>) demo_built 200
     ''9,s,a,deep sleep,z'') = ix_bucket demo_built \<and>
   line_key ''9,s,a,deep sleep,z'' = Some ''deep sleep'' \<and>
   \<not> read_bucket_ok (all_ok\<lparr>read_bucket_ok := False\<rparr>) \<and>
   ix_entry (insert_line hash_string_djb2 (all_ok\<lparr>read_bucket_ok := False\<rparr>) demo_built 200
     ''9,s,a,deep sleep,z'') (ix_size demo_built) =
     Some \<lparr>key = take (KEY_SIZE - 1) (limpiar_texto ''deep sleep''), csv_offset = 200,
           next_entry = - 1\<rparr> \<and>
   insert_line hash_string_djb2 (all_ok\<lparr>write_bucket_ok := False\<rparr>) demo_built 200
     ''9,s,a,deep sleep,z'' =
     demo_built\<lparr>ix_entry := (ix_entry demo_built)(8840 \<mapsto>
                  \<lparr>key = ''deep sleep'', csv_offset = 200, next_entry = 8024\<rparr>),
                ix_size := 9112\<rparr> \<and>
   insert_line hash_string_djb2 (all_ok\<lparr>read_bucket_ok := False\<rparr>) demo_built 200
     ''9,s,a,deep sleep,z'' =
     demo_built\<lparr>ix_entry := (ix_entry demo_built)(8840 \<mapsto>
                  \<lparr>key = ''deep sleep'', csv_offset = 200, next_entry = - 1\<rparr>),
                ix_size := 9112,
                ix_bucket := (ix_bucket demo_built)(312 \<mapsto> 8840)\<rparr>"
proof -
  let ?hs = hash_string_djb2
  let ?line = "''9,s,a,deep sleep,z''"
  note t = build_fails_only_before_line_loop [where hs = ?hs]
  have a: "csv_file (demo_env\<lparr>csv_file := None\<rparr>) = None" by simp
  from a t [where env = "demo_env\<lparr>csv_file := None\<rparr>"]
  have 1: "build_status (build_index ?hs (demo_env\<lparr>csv_file := None\<rparr>)) = - 1" by blast
  have "\<not> (csv_file demo_env = None \<or> \<not> idx_creatable demo_env \<or> \<not> header_write_ok demo_env \<or>
      (\<exists>i < N_BUCKETS. \<not> bucket_write_ok demo_env i) \<or> csv_file demo_env = Some [])"
    by (simp add: demo_env_def demo_csv_def)
  with t [where env = demo_env] have 2: "build_status (build_index ?hs demo_env) \<noteq> - 1" by blast
  with t [where env = demo_env] have 3: "build_status (build_index ?hs demo_env) = 0" by blast
  from 3 t [where env = demo_env and io = "\<lambda>pos. all_ok\<lparr>write_entry_ok := False\<rparr>"]
  have 4: "build_status (build_index ?hs
      (demo_env\<lparr>line_io_at := (\<lambda>pos. all_ok\<lparr>write_entry_ok := False\<rparr>)\<rparr>)) = 0" by simp
  have b: "line_key ''9,s'' = None" by (simp add: run_defs)
  from b t [where line = "''9,s''" and lio = all_ok and f = demo_built and pos = 200]
  have 5: "insert_line ?hs all_ok demo_built 200 ''9,s'' = demo_built" by blast
  have c: "\<not> seek_end_ok (all_ok\<lparr>seek_end_ok := False\<rparr>)" by simp
  from c t [where line = ?line and lio = "all_ok\<lparr>seek_end_ok := False\<rparr>" and f = demo_built
      and pos = 200]
  have 6: "insert_line ?hs (all_ok\<lparr>seek_end_ok := False\<rparr>) demo_built 200 ?line = demo_built"
    by blast
  have d: "\<not> write_bucket_ok (all_ok\<lparr>write_bucket_ok := False\<rparr>)" by simp
  from d t [where line = ?line and lio = "all_ok\<lparr>write_bucket_ok := False\<rparr>" and f = demo_built
      and pos = 200]
  have 7: "ix_bucket (insert_line ?hs (all_ok\<lparr>write_bucket_ok := False\<rparr>) demo_built 200 ?line) =
      ix_bucket demo_built" by blast
  have e: "line_key ?line = Some ''deep sleep''" by (simp add: run_defs)
  have g: "\<not> read_bucket_ok (all_ok\<lparr>read_bucket_ok := False\<rparr>) \<and>
      seek_bucket_ok (all_ok\<lparr>read_bucket_ok := False\<rparr>) \<and>
      seek_end_ok (all_ok\<lparr>read_bucket_ok := False\<rparr>) \<and>
      write_entry_ok (all_ok\<lparr>read_bucket_ok := False\<rparr>)" by (simp add: all_ok_def)
  from e g t [where line = ?line and lio = "all_ok\<lparr>read_bucket_ok := False\<rparr>" and f = demo_built
      and pos = 200 and token = "''deep sleep''"]
  have 8: "ix_entry (insert_line ?hs (all_ok\<lparr>read_bucket_ok := False\<rparr>) demo_built 200 ?line)
      (ix_size demo_built) =
      Some \<lparr>key = take (KEY_SIZE - 1) (limpiar_texto ''deep sleep''), csv_offset = 200,
            next_entry = - 1\<rparr>" by blast
  have v: "limpiar_texto ''deep sleep'' = ''deep sleep''"
    "bucket_offset_of (int (hash_string_djb2 ''deep sleep'' mod N_BUCKETS)) = 312"
    "ix_size demo_built = 8840" "ix_bucket demo_built 312 = Some 8024"
    "take (KEY_SIZE - 1) ''deep sleep'' = ''deep sleep''"
    "ix_size demo_built + sizeof_EntryDisk = 9112"
    by (simp_all add: run_defs demo_built_def)
  have h: "seek_bucket_ok (all_ok\<lparr>write_bucket_ok := False\<rparr>) \<and>
      seek_end_ok (all_ok\<lparr>write_bucket_ok := False\<rparr>) \<and>
      write_entry_ok (all_ok\<lparr>write_bucket_ok := False\<rparr>) \<and>
      read_bucket_ok (all_ok\<lparr>write_bucket_ok := False\<rparr>)" by (simp add: all_ok_def)
  from e h d t [where line = ?line and lio = "all_ok\<lparr>write_bucket_ok := False\<rparr>"
      and f = demo_built and pos = 200 and token = "''deep sleep''"]
  have 9: "insert_line ?hs (all_ok\<lparr>write_bucket_ok := False\<rparr>) demo_built 200 ?line =
      demo_built\<lparr>ix_entry := (ix_entry demo_built)(8840 \<mapsto>
                   \<lparr>key = ''deep sleep'', csv_offset = 200, next_entry = 8024\<rparr>),
                 ix_size := 9112\<rparr>"
    unfolding v by (simp add: sizeof_EntryDisk_def)
  have k: "seek_bucket_again_ok (all_ok\<lparr>read_bucket_ok := False\<rparr>) \<and>
      write_bucket_ok (all_ok\<lparr>read_bucket_ok := False\<rparr>)" by (simp add: all_ok_def)
  from e g k t [where line = ?line and lio = "all_ok\<lparr>read_bucket_ok := False\<rparr>"
      and f = demo_built and pos = 200 and token = "''deep sleep''"]
  have 10: "insert_line ?hs (all_ok\<lparr>read_bucket_ok := False\<rparr>) demo_built 200 ?line =
      demo_built\<lparr>ix_entry := (ix_entry demo_built)(8840 \<mapsto>
                   \<lparr>key = ''deep sleep'', csv_offset = 200, next_entry = - 1\<rparr>),
                 ix_size := 9112,
                 ix_bucket := (ix_bucket demo_built)(312 \<mapsto> 8840)\<rparr>"
    unfolding v by (simp add: sizeof_EntryDisk_def)
  from a 1 2 3 4 b 5 c 6 d 7 e g 8 9 10 show ?thesis by blast
qed


section \<open>Lines without a key\<close>

lemma strtok_token_nonempty: "strtok s = Some (tok, rest) \<Longrightarrow> tok \<noteq> []"
proof -
  assume a: "strtok s = Some (tok, rest)"
  let ?s1 = "dropWhile is_delim s"
  from a have ne: "?s1 \<noteq> []" and t: "tok = takeWhile (\<lambda>c. \<not> is_delim c) ?s1"
    by (auto simp: strtok_def Let_def split: if_splits)
  from ne have "\<not> is_delim (hd ?s1)" by (rule hd_dropWhile)
  with ne t show ?thesis by (cases ?s1) auto
qed

lemma key_loop_token_nonempty:
  "key_loop col t = Some token \<Longrightarrow> (\<And>tok rest. t = Some (tok, rest) \<Longrightarrow> tok \<noteq> []) \<Longrightarrow>
   token \<noteq> []"
proof (induction col t rule: key_loop.induct)
  case (1 col)
  then show ?case by simp
next
  case (2 col tok rest)
  show ?case
  proof (cases "col = 4")
    case True
    with 2 show ?thesis by simp
  next
    case False
    with 2(2) have "key_loop (col + 1) (strtok rest) = Some token" by simp
    from 2(1) [OF False this] show ?thesis using strtok_token_nonempty by blast
  qed
qed

lemma line_key_nonempty: "line_key line = Some token \<Longrightarrow> token \<noteq> []"
  unfolding line_key_def using key_loop_token_nonempty strtok_token_nonempty by blast

lemma insert_line_all_ok:
  assumes "line_key line = Some token"
  shows "insert_line hs all_ok f pos line =
     f\<lparr>ix_entry := (ix_entry f)(ix_size f \<mapsto>
           \<lparr>key = take (KEY_SIZE - 1) (limpiar_texto token), csv_offset = pos,
            next_entry =
              (case ix_bucket f (bucket_offset_of (int (hs (limpiar_texto token) mod N_BUCKETS))) of
                 None \<Rightarrow> - 1 | Some v \<Rightarrow> v)\<rparr>),
        ix_size := ix_size f + sizeof_EntryDisk,
        ix_bucket := (ix_bucket f)
          (bucket_offset_of (int (hs (limpiar_texto token) mod N_BUCKETS)) \<mapsto> ix_size f)\<rparr>"
  using assms by (simp add: insert_line_def all_ok_def Let_def)

text \<open>
  C4, as the code has it: a data line that has no fourth token gets no entry. A line
  that has one is given an entry whenever the calls on the index file succeed, also when
  the cleaned key is empty: the key token itself is never empty, and nothing tests the
  key after \<open>limpiar_texto\<close>.
\<close>

theorem line_without_key_column_not_indexed:
  "(line_key line = None \<longrightarrow> insert_line hs lio f pos line = f) \<and>
   (line_key line = Some token \<longrightarrow>
      token \<noteq> [] \<and>
      ix_entry (insert_line hs all_ok f pos line) (ix_size f) =
        Some \<lparr>key = take (KEY_SIZE - 1) (limpiar_texto token), csv_offset = pos,
              next_entry =
                (case ix_bucket f (bucket_offset_of (int (hs (limpiar_texto token) mod N_BUCKETS))) of
                   None \<Rightarrow> - 1 | Some v \<Rightarrow> v)\<rparr> \<and>
      ix_bucket (insert_line hs all_ok f pos line)
        (bucket_offset_of (int (hs (limpiar_texto token) mod N_BUCKETS))) = Some (ix_size f))"
proof (intro conjI impI)
  assume "line_key line = None"
  then show "insert_line hs lio f pos line = f" by (simp add: insert_line_def)
next
  assume a: "line_key line = Some token"
  then show "token \<noteq> []" by (rule line_key_nonempty)
  from a show "ix_entry (insert_line hs all_ok f pos line) (ix_size f) =
      Some \<lparr>key = take (KEY_SIZE - 1) (limpiar_texto token), csv_offset = pos,
            next_entry =
              (case ix_bucket f (bucket_offset_of (int (hs (limpiar_texto token) mod N_BUCKETS))) of
                 None \<Rightarrow> - 1 | Some v \<Rightarrow> v)\<rparr>"
    by (simp add: insert_line_all_ok)
  from a show "ix_bucket (insert_line hs all_ok f pos line)
      (bucket_offset_of (int (hs (limpiar_texto token) mod N_BUCKETS))) = Some (ix_size f)"
    by (simp add: insert_line_all_ok)
qed

theorem line_without_key_column_not_indexed_witness:
  "line_key ''9,s'' = None \<and>
   insert_line hash_string_djb2 all_ok demo_built 200 ''9,s'' = demo_built \<and>
   line_key ''9,s,a,deep sleep,z'' = Some ''deep sleep'' \<and>
   ''deep sleep'' \<noteq> [] \<and>
   ix_entry (insert_line hash_string_djb2 all_ok demo_built 200 ''9,s,a,deep sleep,z'') 8840 =
     Some \<lparr>key = ''deep sleep'', csv_offset = 200, next_entry = 8024\<rparr> \<and>
   ix_bucket (insert_line hash_string_djb2 all_ok demo_built 200 ''9,s,a,deep sleep,z'') 312 =
     Some 8840"
proof -
  let ?line = "''9,s,a,deep sleep,z''"
  have a: "line_key ''9,s'' = None" by (simp add: run_defs)
  from a line_without_key_column_not_indexed [where line = "''9,s''" and hs = hash_string_djb2
      and lio = all_ok and f = demo_built and pos = 200]
  have 1: "insert_line hash_string_djb2 all_ok demo_built 200 ''9,s'' = demo_built" by blast
  have b: "line_key ?line = Some ''deep sleep''" by (simp add: run_defs)
  have c: "limpiar_texto ''deep sleep'' = ''deep sleep''"
    "bucket_offset_of (int (hash_string_djb2 ''deep sleep'' mod N_BUCKETS)) = 312"
    "ix_size demo_built = 8840" "ix_bucket demo_built 312 = Some 8024"
    by (simp_all add: run_defs demo_built_def)
  from b line_without_key_column_not_indexed [where line = ?line and hs = hash_string_djb2
      and f = demo_built and pos = 200 and token = "''deep sleep''"]
  have 2: "ix_entry (insert_line hash_string_djb2 all_ok demo_built 200 ?line) 8840 =
      Some \<lparr>key = ''deep sleep'', csv_offset = 200, next_entry = 8024\<rparr>"
    and 3: "ix_bucket (insert_line hash_string_djb2 all_ok demo_built 200 ?line) 312 = Some 8840"
    unfolding c by (simp_all add: KEY_SIZE_def)
  from a 1 b 2 3 show ?thesis by simp
qed

text \<open>
  The claim as stated fails: the key column \<open>""\<close> is present, its cleaned key is empty,
  and the line is inserted under the empty key.
\<close>

theorem empty_cleaned_key_is_indexed_counterexample:
  "line_key (''1,s,a,'' @ [DQUOTE, DQUOTE] @ '',z'' @ [NL]) = Some [DQUOTE, DQUOTE] \<and>
   limpiar_texto [DQUOTE, DQUOTE] = [] \<and>
   ix_entry (insert_line hash_string_djb2 all_ok empty_index 62
               (''1,s,a,'' @ [DQUOTE, DQUOTE] @ '',z'' @ [NL])) 8024 =
     Some \<lparr>key = [], csv_offset = 62, next_entry = - 1\<rparr> \<and>
   ix_bucket (insert_line hash_string_djb2 all_ok empty_index 62
               (''1,s,a,'' @ [DQUOTE, DQUOTE] @ '',z'' @ [NL])) 3072 = Some 8024"
  by (simp add: run_defs)


section \<open>The bucket count a reader uses\<close>

lemma kw_walk_header:
  "kw_walk fuel kw exact (f\<lparr>ix_header := header\<rparr>) csv st cur = kw_walk fuel kw exact f csv st cur"
  by (induction fuel arbitrary: st cur) (simp_all add: Let_def split: option.splits)

lemma kw_buckets_header:
  "kw_buckets fuel kw exact (f\<lparr>ix_header := header\<rparr>) csv h offsets st =
   kw_buckets fuel kw exact f csv h offsets st"
  by (induction offsets arbitrary: st) (simp_all add: Let_def kw_walk_header split: option.splits)

lemma search_by_keyword_header:
  "search_by_keyword hs fuel (env\<lparr>index_file := Some (f\<lparr>ix_header := header\<rparr>)\<rparr>) keyword exact =
   search_by_keyword hs fuel (env\<lparr>index_file := Some f\<rparr>) keyword exact"
  by (simp add: search_by_keyword_def ensure_index_def kw_buckets_header Let_def
      split: option.splits)

text \<open>
  An index file with ten buckets, as a build with that bucket count writes it for a
  record store with the one record below: 376 bytes, the entry in bucket 3.
\<close>

definition small_csv :: string where
  "small_csv = ''id,submitter,authors,title,z'' @ [NL] @ ''1,s,a,Deep Learning,z'' @ [NL]"

definition small_index :: idx_file where
  "small_index =
     \<lparr>ix_header = Some \<lparr>n_buckets = 10, offset_buckets = 24, offset_entries = 104\<rparr>,
      ix_bucket = (\<lambda>off. if 24 \<le> off \<and> off < 104 \<and> (off - 24) mod 8 = 0
                           then Some (if off = 48 then 104 else - 1) else None),
      ix_entry = [104 \<mapsto> \<lparr>key = ''Deep Learning'', csv_offset = 29, next_entry = - 1\<rparr>],
      ix_size = 376\<rparr>"

definition small_env :: io_env where
  "small_env = demo_env\<lparr>csv_file := Some small_csv, index_file := Some small_index\<rparr>"

text \<open>
  C3: the worker's search takes the home bucket modulo the bucket count of the header
  (the built-in count when the header's is not positive). \<open>search_by_keyword\<close> does not:
  its result is the same whatever the header says, and on the ten-bucket file it reads
  the slot of bucket 123 at byte 1008, past the end of the file, and finds nothing,
  where the worker's search finds the record in bucket 3.
\<close>

theorem keyword_search_ignores_header_count:
  "search_by_keyword hs fuel (env\<lparr>index_file := Some (f\<lparr>ix_header := header\<rparr>)\<rparr>) keyword exact =
     search_by_keyword hs fuel (env\<lparr>index_file := Some f\<rparr>) keyword exact \<and>
   sw_home_bucket hs hdr t =
     hs t mod nat (if n_buckets hdr \<le> 0 then int N_BUCKETS else n_buckets hdr) \<and>
   hash_string_djb2 ''Deep Learning'' mod N_BUCKETS = 123 \<and>
   bucket_offset_of 123 = 1008 \<and>
   ix_size small_index = 376 \<and>
   sw_home_bucket hash_string_djb2 \<lparr>n_buckets = 10, offset_buckets = 24, offset_entries = 104\<rparr>
     ''Deep Learning'' = 3 \<and>
   search_by_title_and_update hash_string_djb2 (Suc (Suc 0)) small_env (Some ''Deep Learning'') None
       (Some 2048) =
     Some (Inr \<lparr>sw_found = 1, resp_buf = ''1,s,a,Deep Learning,z'' @ [NL]\<rparr>) \<and>
   search_by_keyword hash_string_djb2 (Suc (Suc 0)) small_env (Some ''Deep Learning'') True =
     Some (Inr \<lparr>kw_found = 0, kw_printed = []\<rparr>) \<and>
   search_by_keyword hash_string_djb2 (Suc (Suc 0)) small_env (Some ''Deep Learning'') False =
     Some (Inr \<lparr>kw_found = 0, kw_printed = []\<rparr>)"
proof (intro conjI)
  show "search_by_keyword hs fuel (env\<lparr>index_file := Some (f\<lparr>ix_header := header\<rparr>)\<rparr>) keyword exact =
     search_by_keyword hs fuel (env\<lparr>index_file := Some f\<rparr>) keyword exact"
    by (rule search_by_keyword_header)
  show "sw_home_bucket hs hdr t =
     hs t mod nat (if n_buckets hdr \<le> 0 then int N_BUCKETS else n_buckets hdr)"
    by (simp add: sw_home_bucket_def header_bucket_count_def)
  show "hash_string_djb2 ''Deep Learning'' mod N_BUCKETS = 123"
    by (simp add: run_defs)
  show "bucket_offset_of 123 = 1008"
    by (simp add: run_defs)
  show "ix_size small_index = 376"
    by (simp add: small_index_def)
  show "sw_home_bucket hash_string_djb2 \<lparr>n_buckets = 10, offset_buckets = 24, offset_entries = 104\<rparr>
     ''Deep Learning'' = 3"
    by (simp add: run_defs)
  show "search_by_title_and_update hash_string_djb2 (Suc (Suc 0)) small_env (Some ''Deep Learning'')
      None (Some 2048) =
     Some (Inr \<lparr>sw_found = 1, resp_buf = ''1,s,a,Deep Learning,z'' @ [NL]\<rparr>)"
    by (simp add: run_defs small_env_def small_index_def small_csv_def demo_env_def)
  show "search_by_keyword hash_string_djb2 (Suc (Suc 0)) small_env (Some ''Deep Learning'') True =
     Some (Inr \<lparr>kw_found = 0, kw_printed = []\<rparr>)"
    by (simp add: run_defs small_env_def small_index_def small_csv_def demo_env_def)
  show "search_by_keyword hash_string_djb2 (Suc (Suc 0)) small_env (Some ''Deep Learning'') False =
     Some (Inr \<lparr>kw_found = 0, kw_printed = []\<rparr>)"
    by (simp add: run_defs small_env_def small_index_def small_csv_def demo_env_def)
qed


section \<open>The key column as the builder and the reader parse it\<close>

text \<open>
  A field that both parsers read alike: not empty, free of commas, line ends and NUL,
  and not opened by a quote.
\<close>

definition plain_field :: "string \<Rightarrow> bool" where
  "plain_field fld \<longleftrightarrow>
     fld \<noteq> [] \<and> hd fld \<noteq> DQUOTE \<and>
     (\<forall>c \<in> set fld. c \<noteq> COMMA \<and> c \<noteq> NL \<and> c \<noteq> CR \<and> c \<noteq> NUL)"

lemma plain_field_no_delim: "plain_field fld \<Longrightarrow> c \<in> set fld \<Longrightarrow> \<not> is_delim c"
  by (auto simp: plain_field_def is_delim_def)

lemma plain_field_in_field: "plain_field fld \<Longrightarrow> c \<in> set fld \<Longrightarrow> in_field c"
  by (auto simp: plain_field_def in_field_def)

lemma plain_field_Cons: "plain_field fld \<Longrightarrow> \<exists>c cs. fld = c # cs \<and> \<not> is_delim c \<and> in_field c \<and> c \<noteq> DQUOTE"
  by (cases fld) (auto simp: plain_field_def is_delim_def in_field_def)

lemma strtok_plain:
  assumes "plain_field fld" "is_delim d"
  shows "strtok (fld @ d # rest) = Some (fld, rest)"
proof -
  from plain_field_Cons [OF assms(1)] obtain c cs where f: "fld = c # cs" and c: "\<not> is_delim c"
    by blast
  have nd: "\<And>x. x \<in> set fld \<Longrightarrow> \<not> is_delim x" using assms(1) plain_field_no_delim by blast
  have d1: "dropWhile is_delim (fld @ d # rest) = fld @ d # rest" using f c by simp
  have t: "takeWhile (\<lambda>c. \<not> is_delim c) (fld @ d # rest) = fld"
    using nd assms(2) by (simp add: takeWhile_append2)
  have d2: "dropWhile (\<lambda>c. \<not> is_delim c) (fld @ d # rest) = d # rest"
    using nd assms(2) by (simp add: dropWhile_append2)
  have ne: "fld @ d # rest \<noteq> []" by simp
  show ?thesis unfolding strtok_def Let_def d1 t d2 using ne by simp
qed

lemma strtok_plain_end:
  assumes "plain_field fld"
  shows "strtok fld = Some (fld, [])"
proof -
  from plain_field_Cons [OF assms] obtain c cs where f: "fld = c # cs" and c: "\<not> is_delim c"
    by blast
  have nd: "\<And>x. x \<in> set fld \<Longrightarrow> \<not> is_delim x" using assms plain_field_no_delim by blast
  have d1: "dropWhile is_delim fld = fld" using f c by simp
  have t: "takeWhile (\<lambda>c. \<not> is_delim c) fld = fld" using nd by (simp add: takeWhile_eq_all_conv)
  have d2: "dropWhile (\<lambda>c. \<not> is_delim c) fld = []" using nd by simp
  have ne: "fld \<noteq> []" using f by simp
  show ?thesis unfolding strtok_def Let_def d1 t d2 using ne by simp
qed

lemma strtok_plain_tail:
  assumes "plain_field fld" "tail = [] \<or> is_delim (hd tail)"
  shows "\<exists>rest. strtok (fld @ tail) = Some (fld, rest)"
proof (cases tail)
  case Nil
  with strtok_plain_end [OF assms(1)] show ?thesis by simp
next
  case (Cons d rest)
  with assms(2) have "is_delim d" by simp
  from strtok_plain [OF assms(1) this] Cons show ?thesis by blast
qed

lemma key_loop_skip:
  assumes "col \<noteq> 4" "plain_field fld"
  shows "key_loop col (strtok (fld @ COMMA # rest)) = key_loop (col + 1) (strtok rest)"
proof -
  have "is_delim COMMA" by (simp add: is_delim_def)
  from strtok_plain [OF assms(2) this] assms(1) show ?thesis by simp
qed

lemma builder_key_plain:
  assumes "plain_field f1" "plain_field f2" "plain_field f3" "plain_field f4"
    and "tail = [] \<or> is_delim (hd tail)"
  shows "key_loop 1 (strtok (f1 @ COMMA # f2 @ COMMA # f3 @ COMMA # f4 @ tail)) = Some f4"
proof -
  from strtok_plain_tail [OF assms(4,5)] obtain rest where
    4: "strtok (f4 @ tail) = Some (f4, rest)" by blast
  have "key_loop 1 (strtok (f1 @ COMMA # f2 @ COMMA # f3 @ COMMA # f4 @ tail)) =
      key_loop (1 + 1) (strtok (f2 @ COMMA # f3 @ COMMA # f4 @ tail))"
    by (rule key_loop_skip [OF _ assms(1)]) simp
  also have "\<dots> = key_loop (1 + 1 + 1) (strtok (f3 @ COMMA # f4 @ tail))"
    by (rule key_loop_skip [OF _ assms(2)]) simp
  also have "\<dots> = key_loop (1 + 1 + 1 + 1) (strtok (f4 @ tail))"
    by (rule key_loop_skip [OF _ assms(3)]) simp
  also have "\<dots> = Some f4" unfolding 4 by simp
  finally show ?thesis .
qed

lemma csv_scan_skip_plain:
  assumes "plain_field fld" "col \<noteq> target_col"
  shows "csv_scan target_col out_sz col (fld @ COMMA # rest) = csv_scan target_col out_sz (col + 1) rest"
proof -
  from plain_field_Cons [OF assms(1)] obtain c cs where f: "fld = c # cs"
    and c: "in_field c" "c \<noteq> DQUOTE" by blast
  from c have c': "c \<noteq> NL" "c \<noteq> CR" by (auto simp: in_field_def)
  have inf: "\<And>x. x \<in> set fld \<Longrightarrow> in_field x" using assms(1) plain_field_in_field by blast
  have "dropWhile in_field (fld @ COMMA # rest) = COMMA # rest"
    using inf by (simp add: dropWhile_append2 in_field_def)
  then have dw: "dropWhile in_field (c # cs @ COMMA # rest) = COMMA # rest" using f by simp
  have "csv_scan target_col out_sz col (c # cs @ COMMA # rest) =
      csv_scan target_col out_sz (col + 1) rest"
    by (subst csv_scan.simps) (simp add: c c' assms(2) Let_def dw del: dropWhile.simps)
  then show ?thesis using f by simp
qed

lemma csv_scan_target_plain:
  assumes "plain_field fld" "tail = [] \<or> \<not> in_field (hd tail)" "length fld < out_sz"
  shows "csv_scan col out_sz col (fld @ tail) = Some (trim_inplace fld)"
proof -
  from plain_field_Cons [OF assms(1)] obtain c cs where f: "fld = c # cs"
    and c: "in_field c" "c \<noteq> DQUOTE" by blast
  from c have c': "c \<noteq> NL" "c \<noteq> CR" by (auto simp: in_field_def)
  have inf: "\<And>x. x \<in> set fld \<Longrightarrow> in_field x" using assms(1) plain_field_in_field by blast
  have "takeWhile in_field (fld @ tail) = fld"
  proof (cases tail)
    case Nil
    with inf show ?thesis by (simp add: takeWhile_eq_all_conv)
  next
    case (Cons d rest)
    with assms(2) have "\<not> in_field d" by simp
    with inf Cons show ?thesis by (simp add: takeWhile_append2)
  qed
  then have t: "takeWhile in_field (c # cs @ tail) = fld" using f by simp
  have "csv_scan col out_sz col (c # cs @ tail) = Some (trim_inplace fld)"
    using assms(3) by (subst csv_scan.simps) (simp add: c c' Let_def t del: takeWhile.simps)
  then show ?thesis using f by simp
qed

lemma reader_column_plain:
  assumes "plain_field f1" "plain_field f2" "plain_field f3" "plain_field f4"
    and "tail = [] \<or> is_delim (hd tail)" and "length f4 < out_sz"
  shows "csv_get_column (f1 @ COMMA # f2 @ COMMA # f3 @ COMMA # f4 @ tail) 4 out_sz =
     Some (trim_inplace f4)"
proof -
  from assms(5) have t: "tail = [] \<or> \<not> in_field (hd tail)"
    by (auto simp: is_delim_def in_field_def)
  have four: "(1::nat) + 1 + 1 + 1 = 4" by simp
  have "csv_scan 4 out_sz 1 (f1 @ COMMA # f2 @ COMMA # f3 @ COMMA # f4 @ tail) =
      csv_scan 4 out_sz (1 + 1) (f2 @ COMMA # f3 @ COMMA # f4 @ tail)"
    by (rule csv_scan_skip_plain [OF assms(1)]) simp
  also have "\<dots> = csv_scan 4 out_sz (1 + 1 + 1) (f3 @ COMMA # f4 @ tail)"
    by (rule csv_scan_skip_plain [OF assms(2)]) simp
  also have "\<dots> = csv_scan 4 out_sz (1 + 1 + 1 + 1) (f4 @ tail)"
    by (rule csv_scan_skip_plain [OF assms(3)]) simp
  also have "\<dots> = Some (trim_inplace f4)"
    unfolding four by (rule csv_scan_target_plain [OF assms(4) t assms(6)])
  finally show ?thesis by (simp add: csv_get_column_def)
qed

lemma limpiar_texto_plain:
  assumes "plain_field fld" "last fld \<noteq> DQUOTE"
  shows "limpiar_texto fld = strip_trailing_space fld"
  using assms by (simp add: limpiar_texto_def plain_field_def Let_def)

lemma trim_inplace_plain:
  assumes "fld \<noteq> []" "\<not> isspace (hd fld)"
  shows "trim_inplace fld = strip_trailing_space fld"
proof -
  from assms obtain c cs where "fld = c # cs" "\<not> isspace c" by (cases fld) auto
  then show ?thesis by (simp add: trim_inplace_def)
qed

lemma cstr_no_nul: "NUL \<notin> set s \<Longrightarrow> cstr s = s"
  by (auto simp: cstr_def takeWhile_eq_all_conv)


lemma plain_field_no_nul: "plain_field fld \<Longrightarrow> NUL \<notin> set fld"
  by (auto simp: plain_field_def)

lemma cstr_append_plain: "plain_field fld \<Longrightarrow> cstr (fld @ s) = fld @ cstr s"
  unfolding cstr_def using plain_field_no_nul by (intro takeWhile_append2) auto

lemma cstr_comma: "cstr (COMMA # s) = COMMA # cstr s"
  by (simp add: cstr_def)

lemma cstr_tail_delim:
  assumes "tail = [] \<or> is_delim (hd tail)"
  shows "cstr tail = [] \<or> is_delim (hd (cstr tail))"
proof (cases tail)
  case Nil
  then show ?thesis by (simp add: cstr_def)
next
  case (Cons d rest)
  with assms have d: "is_delim d" by simp
  then have "d \<noteq> NUL" by (auto simp: is_delim_def)
  with Cons d show ?thesis by (simp add: cstr_def)
qed

lemma cstr_plain_line:
  assumes "plain_field f1" "plain_field f2" "plain_field f3" "plain_field f4"
  shows "cstr (f1 @ COMMA # f2 @ COMMA # f3 @ COMMA # f4 @ tail) =
     f1 @ COMMA # f2 @ COMMA # f3 @ COMMA # f4 @ cstr tail"
  by (simp add: cstr_append_plain [OF assms(1)] cstr_append_plain [OF assms(2)]
      cstr_append_plain [OF assms(3)] cstr_append_plain [OF assms(4)] cstr_comma)

text \<open>
  C2, as the code has it: the builder does not call \<open>csv_get_column\<close>; it takes the
  fourth token that \<open>strtok\<close> cuts at commas and line ends, and cleans it with
  \<open>limpiar_texto\<close>. The two extractions give the same text on a line whose first four
  fields are plain (not empty, without comma, line end or NUL, not opened by a quote)
  when the fourth neither ends in a quote nor starts with white space and fits the
  reader's buffer.
\<close>

theorem builder_and_reader_agree_on_plain_fields:
  assumes "plain_field f1" "plain_field f2" "plain_field f3" "plain_field f4"
    and "last f4 \<noteq> DQUOTE" and "\<not> isspace (hd f4)" and "length f4 < out_sz"
    and "tail = [] \<or> is_delim (hd tail)"
  shows "map_option limpiar_texto (line_key (f1 @ COMMA # f2 @ COMMA # f3 @ COMMA # f4 @ tail)) =
           csv_get_column (cstr (f1 @ COMMA # f2 @ COMMA # f3 @ COMMA # f4 @ tail)) 4 out_sz \<and>
         csv_get_column (cstr (f1 @ COMMA # f2 @ COMMA # f3 @ COMMA # f4 @ tail)) 4 out_sz =
           Some (strip_trailing_space f4)"
proof -
  let ?line = "f1 @ COMMA # f2 @ COMMA # f3 @ COMMA # f4 @ tail"
  have c: "cstr ?line = f1 @ COMMA # f2 @ COMMA # f3 @ COMMA # f4 @ cstr tail"
    by (rule cstr_plain_line [OF assms(1-4)])
  note t = cstr_tail_delim [OF assms(8)]
  have k: "line_key ?line = Some f4"
    unfolding line_key_def c by (rule builder_key_plain [OF assms(1-4) t])
  have ne: "f4 \<noteq> []" using assms(4) by (simp add: plain_field_def)
  have r: "csv_get_column (cstr ?line) 4 out_sz = Some (trim_inplace f4)"
    unfolding c by (rule reader_column_plain [OF assms(1-4) t assms(7)])
  have "limpiar_texto f4 = strip_trailing_space f4"
    by (rule limpiar_texto_plain [OF assms(4,5)])
  moreover have "trim_inplace f4 = strip_trailing_space f4"
    by (rule trim_inplace_plain [OF ne assms(6)])
  ultimately show ?thesis using k r by simp
qed

theorem builder_and_reader_agree_on_plain_fields_witness:
  "plain_field ''1'' \<and> plain_field ''s'' \<and> plain_field ''a'' \<and> plain_field ''deep sleep'' \<and>
   last ''deep sleep'' \<noteq> DQUOTE \<and> \<not> isspace (hd ''deep sleep'') \<and>
   length ''deep sleep'' < (64::nat) \<and>
   is_delim (hd ('',c,j,d,r,k,l,m,2020-01-01'' @ [NL])) \<and>
   map_option limpiar_texto
     (line_key (''1'' @ COMMA # ''s'' @ COMMA # ''a'' @ COMMA # ''deep sleep'' @
                '',c,j,d,r,k,l,m,2020-01-01'' @ [NL])) =
     csv_get_column
       (cstr (''1'' @ COMMA # ''s'' @ COMMA # ''a'' @ COMMA # ''deep sleep'' @
              '',c,j,d,r,k,l,m,2020-01-01'' @ [NL])) 4 64 \<and>
   csv_get_column
     (cstr (''1'' @ COMMA # ''s'' @ COMMA # ''a'' @ COMMA # ''deep sleep'' @
            '',c,j,d,r,k,l,m,2020-01-01'' @ [NL])) 4 64 =
     Some (strip_trailing_space ''deep sleep'') \<and>
   strip_trailing_space ''deep sleep'' = ''deep sleep''"
proof -
  have p: "plain_field ''1''" "plain_field ''s''" "plain_field ''a''" "plain_field ''deep sleep''"
    by (simp_all add: plain_field_def)
  have q: "last ''deep sleep'' \<noteq> DQUOTE" "\<not> isspace (hd ''deep sleep'')"
    "length ''deep sleep'' < (64::nat)"
    by (simp_all add: isspace_def)
  have d: "is_delim (hd ('',c,j,d,r,k,l,m,2020-01-01'' @ [NL]))" by (simp add: is_delim_def)
  then have d': "'',c,j,d,r,k,l,m,2020-01-01'' @ [NL] = [] \<or>
      is_delim (hd ('',c,j,d,r,k,l,m,2020-01-01'' @ [NL]))" by simp
  have s: "strip_trailing_space ''deep sleep'' = ''deep sleep''"
    by (simp add: strip_trailing_space.simps isspace_def)
  from builder_and_reader_agree_on_plain_fields [OF p q d'] p q d s show ?thesis by blast
qed

text \<open>
  The claim as stated fails: on a quoted title that holds a comma the builder cuts at
  the comma, and it leaves a doubled quote as it is, where \<open>csv_get_column\<close> reads the
  whole field and decodes the doubled quote.
\<close>

theorem builder_key_is_not_quote_aware_counterexample:
  "map_option limpiar_texto
     (line_key (''2,u,v,'' @ [DQUOTE] @ ''deep, space'' @ [DQUOTE] @ '',q'' @ [NL])) =
     Some ''deep'' \<and>
   csv_get_column (cstr (''2,u,v,'' @ [DQUOTE] @ ''deep, space'' @ [DQUOTE] @ '',q'' @ [NL])) 4 64 =
     Some ''deep, space'' \<and>
   map_option limpiar_texto
     (line_key (''3,u,v,'' @ [DQUOTE] @ ''a '' @ [DQUOTE, DQUOTE] @ ''b'' @ [DQUOTE, DQUOTE] @
                [DQUOTE] @ '',q'' @ [NL])) =
     Some (''a '' @ [DQUOTE, DQUOTE] @ ''b'' @ [DQUOTE, DQUOTE]) \<and>
   csv_get_column
     (cstr (''3,u,v,'' @ [DQUOTE] @ ''a '' @ [DQUOTE, DQUOTE] @ ''b'' @ [DQUOTE, DQUOTE] @
            [DQUOTE] @ '',q'' @ [NL])) 4 64 =
     Some (''a '' @ [DQUOTE] @ ''b'' @ [DQUOTE])"
  by (simp add: run_defs)


end
